theory Spec2Isabelle
  imports
    Main
    "HOL-Library.Word"
    "HOL-Library.Char_ord"
    "HOL-Library.List_Lexorder"
    "HOL-Library.Product_Lexorder"
    "HOL-Library.Multiset"
begin

section \<open>Instructions, blocks and control-flow graphs\<close>

text \<open>
  The pass \<^verbatim>\<open>TransformConstClassBranchesPass\<close> works on the editable control-flow graph
  of a method. Blocks are identified by their \<^verbatim>\<open>BlockId\<close>; a \<^verbatim>\<open>cfg::Block*\<close> of the
  source is the id of the block it points to, and the graph maps ids to block contents.
  Types (\<^verbatim>\<open>DexType*\<close>) are interned by their descriptor, so a type is its descriptor;
  a method reference is the triple of class descriptor, name and prototype descriptor.
  The comparators \<^verbatim>\<open>dextypes_comparator\<close> and \<^verbatim>\<open>compare_dexmethods\<close> are
  strict total orders; they are the lexicographic orders of these representations.
\<close>

type_synonym reg_t = nat
type_synonym block_id = nat
type_synonym dex_type = string
type_synonym dex_method_ref = "dex_type \<times> string \<times> string"

datatype ir_opcode =
    OPCODE_CONST
  | OPCODE_CONST_CLASS
  | OPCODE_CONST_STRING
  | OPCODE_IF_EQ
  | OPCODE_IF_NE
  | OPCODE_IF_GE
  | OPCODE_IF_NEZ
  | OPCODE_SWITCH
  | OPCODE_INVOKE_STATIC
  | OPCODE_INVOKE_DIRECT
  | OPCODE_MOVE_RESULT
  | OPCODE_MOVE_RESULT_OBJECT
  | IOPCODE_MOVE_RESULT_PSEUDO_OBJECT
  | OPCODE_NEW_INSTANCE
  | OPCODE_THROW
  | OPCODE_RETURN_OBJECT
  | OPCODE_ADD_INT_LIT
  | IOPCODE_LOAD_PARAM
  | OPCODE_OTHER nat

record ir_instruction =
  opcode :: ir_opcode
  srcs :: "reg_t list"
  dest :: "reg_t option"
  literal :: "int option"
  insn_type :: "dex_type option"
  insn_string :: "string option"
  insn_method :: "dex_method_ref option"

datatype edge_type = EDGE_GOTO | EDGE_BRANCH | EDGE_THROW | EDGE_GHOST

record edge =
  etype :: edge_type
  case_key :: "32 word option"
  target :: block_id

record block =
  is_catch :: bool
  insns :: "ir_instruction list"
  succs :: "edge list"

text \<open>
  \<^verbatim>\<open>cfg.blocks()\<close> is the list of the graph's blocks in its iteration order;
  \<^verbatim>\<open>registers_size\<close> is the counter behind \<^verbatim>\<open>allocate_temp\<close>.
\<close>

record control_flow_graph =
  blocks :: "(block_id \<times> block) list"
  entry_block :: block_id
  registers_size :: nat

definition find_block :: "control_flow_graph \<Rightarrow> block_id \<Rightarrow> block option" where
  "find_block cfg b = map_of (blocks cfg) b"

text \<open>The targets of \<^verbatim>\<open>b->succs()\<close>, in edge order; a block the graph does not hold has none.\<close>

definition succ_targets :: "control_flow_graph \<Rightarrow> block_id \<Rightarrow> block_id list" where
  "succ_targets cfg b = (case find_block cfg b of None \<Rightarrow> [] | Some blk \<Rightarrow> map target (succs blk))"

text \<open>\<^verbatim>\<open>InstructionIterable(cfg)\<close>: every instruction of every block.\<close>

definition cfg_instructions :: "control_flow_graph \<Rightarrow> ir_instruction list" where
  "cfg_instructions cfg = concat (map (\<lambda>(i, blk). insns blk) (blocks cfg))"

section \<open>The quick per-method filter\<close>

text \<open>The configuration options of the pass (\<^verbatim>\<open>PassState\<close>; the mutex is not data).\<close>

record pass_state =
  lookup_method :: dex_method_ref
  consider_external_classes :: bool
  min_cases :: nat
  max_cases :: nat

definition num_const_class_opcodes :: "control_flow_graph \<Rightarrow> nat" where
  "num_const_class_opcodes cfg =
     length (filter (\<lambda>insn. opcode insn = OPCODE_CONST_CLASS) (cfg_instructions cfg))"

definition is_if_eq :: "ir_opcode \<Rightarrow> bool" where
  "is_if_eq op = (op = OPCODE_IF_EQ)"

definition is_if_ne :: "ir_opcode \<Rightarrow> bool" where
  "is_if_ne op = (op = OPCODE_IF_NE)"

text \<open>\<^verbatim>\<open>b->get_last_insn()\<close> is \<^verbatim>\<open>b->end()\<close> exactly when the block has no instruction.\<close>

definition ends_in_if_statment :: "block \<Rightarrow> bool" where
  "ends_in_if_statment b =
     (case insns b of
        [] \<Rightarrow> False
      | _ # _ \<Rightarrow> (let op = opcode (last (insns b)) in is_if_eq op \<or> is_if_ne op))"

text \<open>
  The loop of \<^verbatim>\<open>should_consider_method\<close> over \<^verbatim>\<open>cfg.blocks()\<close>: \<open>None\<close> is the early
  \<^verbatim>\<open>return false\<close> at a catch block, \<open>Some found_branch\<close> the value of the flag when the
  loop ends or breaks.
\<close>

fun scan_blocks :: "block list \<Rightarrow> bool option" where
  "scan_blocks [] = Some False"
| "scan_blocks (b # bs) =
     (if is_catch b then None
      else if ends_in_if_statment b then Some True
      else scan_blocks bs)"

text \<open>
  A method as the filter reads it: the \<^verbatim>\<open>no_optimizations\<close> flag of its \<^verbatim>\<open>rstate\<close> and
  its code (\<open>None\<close> is \<^verbatim>\<open>nullptr\<close>).
\<close>

record method_view =
  no_optimizations :: bool
  method_code :: "control_flow_graph option"

definition should_consider_method :: "pass_state \<Rightarrow> method_view \<Rightarrow> bool" where
  "should_consider_method ps method =
     (if no_optimizations method then False
      else case method_code method of
        None \<Rightarrow> False
      | Some cfg \<Rightarrow>
          (case scan_blocks (map snd (blocks cfg)) of
             None \<Rightarrow> False
           | Some found_branch \<Rightarrow> found_branch \<and> num_const_class_opcodes cfg \<ge> min_cases ps))"

section \<open>Block order\<close>

text \<open>
  \<^verbatim>\<open>order_blocks\<close>: the stack \<^verbatim>\<open>to_visit\<close> is a list whose head is the top. Pushing the
  successors of \<open>b\<close> in edge order leaves the last successor on top.
\<close>

definition edge_targets :: "control_flow_graph \<Rightarrow> block_id set" where
  "edge_targets cfg = (\<Union>(i, blk) \<in> set (blocks cfg). target ` set (succs blk))"

function order_blocks_loop ::
  "control_flow_graph \<Rightarrow> block_id list \<Rightarrow> block_id set \<Rightarrow> block_id list \<Rightarrow> block_id list" where
  "order_blocks_loop cfg [] visited out = out"
| "order_blocks_loop cfg (b # to_visit) visited out =
     (if b \<in> visited then order_blocks_loop cfg to_visit visited out
      else order_blocks_loop cfg (rev (succ_targets cfg b) @ to_visit)
             (insert b visited) (out @ [b]))"
  by pat_completeness auto

lemma succ_targets_subset: "set (succ_targets cfg b) \<subseteq> edge_targets cfg"
proof (cases "map_of (blocks cfg) b")
  case None
  then show ?thesis by (simp add: succ_targets_def find_block_def)
next
  case (Some blk)
  then have "(b, blk) \<in> set (blocks cfg)"
    by (rule map_of_SomeD)
  then have "target ` set (succs blk) \<subseteq> edge_targets cfg"
    unfolding edge_targets_def by blast
  with Some show ?thesis by (simp add: succ_targets_def find_block_def)
qed

lemma finite_edge_targets: "finite (edge_targets cfg)"
  by (auto simp: edge_targets_def)

lemma order_blocks_measure_skip:
  assumes "finite T"
  shows "card ((set to_visit \<union> T) - visited) \<le> card (insert b (set to_visit \<union> T) - visited)"
  by (rule card_mono) (use assms in auto)

lemma order_blocks_measure_visit:
  assumes "finite T" and "b \<notin> visited" and "set ss \<subseteq> T"
  shows "card ((set ss \<union> set to_visit \<union> T) - insert b visited)
         < card (insert b (set to_visit \<union> T) - visited)"
  by (rule psubset_card_mono) (use assms in auto)

termination order_blocks_loop
proof (relation "measures
    [\<lambda>(cfg, to_visit, visited, out). card ((set to_visit \<union> edge_targets cfg) - visited),
     \<lambda>(cfg, to_visit, visited, out). length to_visit]", goal_cases)
  case 1
  show ?case by simp
next
  case 2
  show ?case
    using order_blocks_measure_skip[OF finite_edge_targets]
    by (simp add: le_less)
next
  case 3
  then show ?case
    using order_blocks_measure_visit[OF finite_edge_targets _ succ_targets_subset]
    by simp
qed

definition order_blocks :: "control_flow_graph \<Rightarrow> block_id list" where
  "order_blocks cfg = order_blocks_loop cfg [entry_block cfg] {} []"


section \<open>The switch-equivalence finder as the pass sees it\<close>

text \<open>Assertion failures and exceptions of the source are values.\<close>

datatype error = BadGet | OutOfRange | AssertionFailed | NullDereference

text \<open>
  \<^verbatim>\<open>SwitchingKey\<close> is a variant of the default-case tag, a primitive constant and a
  class type.
\<close>

datatype switching_key = DefaultCase | IntKey "32 word" | TypeKey dex_type

datatype key_kind = KeyKind_INT | KeyKind_CLASS

text \<open>
  The result object of a \<^verbatim>\<open>SwitchEquivFinder\<close>. \<^verbatim>\<open>key_to_case\<close> is a
  \<^verbatim>\<open>std::map\<close>; it is listed in its iteration order.
\<close>

record switch_equiv_finder =
  success :: bool
  key_to_case :: "(switching_key \<times> block_id) list"
  extra_loads :: "(block_id \<times> (reg_t \<times> ir_instruction) list) list"
  visited_blocks :: "block_id list"

text \<open>
  Modelled from the spec: \<^verbatim>\<open>SwitchEquivFinder::is_default_case\<close> is declared in a header
  that is not part of the sources at hand. The default case is keyed by a distinguished
  sentinel, never a real constant.
\<close>

definition is_default_case :: "switching_key \<Rightarrow> bool" where
  "is_default_case key = (key = DefaultCase)"

text \<open>
  Modelled from the spec: \<^verbatim>\<open>SwitchEquivFinder::default_case\<close> (header not at hand)
  is the destination recorded for the sentinel key, if any.
\<close>

definition default_case :: "switch_equiv_finder \<Rightarrow> block_id option" where
  "default_case finder = map_of (key_to_case finder) DefaultCase"

definition kind_of_key :: "switching_key \<Rightarrow> key_kind option" where
  "kind_of_key key = (case key of DefaultCase \<Rightarrow> None | IntKey _ \<Rightarrow> Some KeyKind_INT | TypeKey _ \<Rightarrow> Some KeyKind_CLASS)"

text \<open>
  Modelled from the spec: \<^verbatim>\<open>SwitchEquivFinder::are_keys_uniform\<close> (header not at hand):
  the compared keys are uniformly of the given kind, the default sentinel apart.
\<close>

definition are_keys_uniform :: "switch_equiv_finder \<Rightarrow> key_kind \<Rightarrow> bool" where
  "are_keys_uniform finder kind =
     list_all (\<lambda>(key, leaf). is_default_case key \<or> kind_of_key key = Some kind) (key_to_case finder)"

definition finder_results_are_supported :: "switch_equiv_finder \<Rightarrow> bool" where
  "finder_results_are_supported finder =
     (success finder \<and> are_keys_uniform finder KeyKind_CLASS \<and> extra_loads finder = [] \<and>
      default_case finder \<noteq> None)"

text \<open>\<^verbatim>\<open>boost::get<const DexType*>(key)\<close> throws unless the key holds a type.\<close>

definition get_dex_type :: "switching_key \<Rightarrow> error + dex_type" where
  "get_dex_type key = (case key of TypeKey t \<Rightarrow> Inr t | _ \<Rightarrow> Inl BadGet)"

section \<open>Collaborators that are not part of the sources at hand\<close>

record dex_class =
  class_type :: dex_type
  is_external :: bool

text \<open>
  The analyses and helpers the pass calls are parameters of the model:
  \<^verbatim>\<open>SwitchEquivEditor::simplify_moves\<close>, \<^verbatim>\<open>find_determining_reg\<close> (with the
  constant-propagation fixpoint it reads, a function of the graph), the
  \<^verbatim>\<open>SwitchEquivFinder\<close> constructor (which runs the search from a root branch),
  \<^verbatim>\<open>type_class\<close>, \<^verbatim>\<open>java_names::internal_to_external\<close>,
  \<^verbatim>\<open>StringTreeMap<int16_t>::encode_string_tree_map\<close> and \<^verbatim>\<open>DexMethod::get_method\<close>.
\<close>

record analysis_env =
  simplify_moves :: "control_flow_graph \<Rightarrow> control_flow_graph"
  find_determining_reg :: "control_flow_graph \<Rightarrow> block_id \<Rightarrow> reg_t option"
  run_switch_equiv_finder :: "control_flow_graph \<Rightarrow> block_id \<Rightarrow> reg_t \<Rightarrow> switch_equiv_finder"
  type_class_of :: "dex_type \<Rightarrow> dex_class option"
  internal_to_external :: "string \<Rightarrow> string"
  encode_string_tree_map :: "(string \<rightharpoonup> 16 word) \<Rightarrow> string"
  get_method :: "string \<Rightarrow> dex_method_ref option"

section \<open>Gathering the possible transformations of a method\<close>

record branch_transform =
  bt_block :: block_id
  bt_insn :: ir_instruction
  determining_reg :: reg_t
  switch_equiv :: switch_equiv_finder

text \<open>
  The loop that counts the relevant cases of a supported finder result.
\<close>

fun relevant_case_count ::
  "analysis_env \<Rightarrow> pass_state \<Rightarrow> (switching_key \<times> block_id) list \<Rightarrow> nat \<Rightarrow> error + nat" where
  "relevant_case_count env ps [] n = Inr n"
| "relevant_case_count env ps ((key, leaf) # rest) n =
     (if \<not> is_default_case key then
        (case get_dex_type key of
           Inl e \<Rightarrow> Inl e
         | Inr dtype \<Rightarrow>
             (let case_class = type_class_of env dtype in
              if consider_external_classes ps \<or>
                 (case case_class of None \<Rightarrow> False | Some c \<Rightarrow> \<not> is_external c)
              then relevant_case_count env ps rest (n + 1)
              else relevant_case_count env ps rest n))
      else relevant_case_count env ps rest n)"

text \<open>
  The state of the loop over the ordered blocks: the set \<^verbatim>\<open>blocks_considered\<close>, the
  vector \<^verbatim>\<open>transforms\<close>, and the roots on which a \<^verbatim>\<open>SwitchEquivFinder\<close> has been
  constructed so far (constructing one runs the search).
\<close>

record gather_state =
  blocks_considered :: "block_id set"
  planned :: "branch_transform list"
  finder_runs :: "block_id list"

definition gather_block ::
  "analysis_env \<Rightarrow> pass_state \<Rightarrow> control_flow_graph \<Rightarrow> gather_state \<Rightarrow> block_id
   \<Rightarrow> error + gather_state" where
  "gather_block env ps cfg st b =
     (if b \<in> blocks_considered st then Inr st
      else
        let st1 = st\<lparr>blocks_considered := insert b (blocks_considered st)\<rparr> in
        case find_block cfg b of
          None \<Rightarrow> Inl NullDereference
        | Some blk \<Rightarrow>
            if \<not> ends_in_if_statment blk then Inr st1
            else
              (case find_determining_reg env cfg b of
                 None \<Rightarrow> Inr st1
               | Some reg \<Rightarrow>
                   let last_insn = last (insns blk);
                       finder = run_switch_equiv_finder env cfg b reg;
                       st2 = st1\<lparr>finder_runs := finder_runs st1 @ [b]\<rparr>
                   in
                   if finder_results_are_supported finder then
                     let st3 = st2\<lparr>blocks_considered :=
                                 blocks_considered st2 \<union> set (visited_blocks finder)\<rparr>
                     in
                     (case relevant_case_count env ps (key_to_case finder) 0 of
                        Inl e \<Rightarrow> Inl e
                      | Inr n \<Rightarrow>
                          if n > max_cases ps \<or> n < min_cases ps then Inr st3
                          else Inr (st3\<lparr>planned := planned st3 @
                                 [\<lparr>bt_block = b, bt_insn = last_insn, determining_reg = reg,
                                   switch_equiv = finder\<rparr>]\<rparr>))
                   else Inr st2))"

fun gather_blocks ::
  "analysis_env \<Rightarrow> pass_state \<Rightarrow> control_flow_graph \<Rightarrow> gather_state \<Rightarrow> block_id list
   \<Rightarrow> error + gather_state" where
  "gather_blocks env ps cfg st [] = Inr st"
| "gather_blocks env ps cfg st (b # bs) =
     (case gather_block env ps cfg st b of
        Inl e \<Rightarrow> Inl e
      | Inr st' \<Rightarrow> gather_blocks env ps cfg st' bs)"

text \<open>
  The analysis part of \<^verbatim>\<open>gather_possible_transformations\<close>, on the graph of the
  simplified copy.
\<close>

definition plan_transforms ::
  "analysis_env \<Rightarrow> pass_state \<Rightarrow> control_flow_graph \<Rightarrow> error + gather_state" where
  "plan_transforms env ps cfg =
     gather_blocks env ps cfg \<lparr>blocks_considered = {}, planned = [], finder_runs = []\<rparr>
       (order_blocks cfg)"


section \<open>The graph-editing interface\<close>

text \<open>\<^verbatim>\<open>new IRInstruction(op)\<close>: an instruction with no operand set yet.\<close>

definition new_instruction :: "ir_opcode \<Rightarrow> ir_instruction" where
  "new_instruction op = \<lparr>opcode = op, srcs = [], dest = None, literal = None,
     insn_type = None, insn_string = None, insn_method = None\<rparr>"

definition update_block ::
  "control_flow_graph \<Rightarrow> block_id \<Rightarrow> (block \<Rightarrow> block) \<Rightarrow> control_flow_graph" where
  "update_block cfg b f =
     cfg\<lparr>blocks := map (\<lambda>(i, blk). if i = b then (i, f blk) else (i, blk)) (blocks cfg)\<rparr>"

text \<open>
  Modelled from the spec: \<^verbatim>\<open>ControlFlowGraph::allocate_temp\<close> (the graph's
  implementation is not part of the sources at hand) returns a fresh register id from a
  counter the graph owns, which only grows.
\<close>

definition allocate_temp :: "control_flow_graph \<Rightarrow> reg_t \<times> control_flow_graph" where
  "allocate_temp cfg = (registers_size cfg, cfg\<lparr>registers_size := registers_size cfg + 1\<rparr>)"

text \<open>
  Modelled from the spec: \<^verbatim>\<open>ControlFlowGraph::create_block\<close> (implementation not at
  hand) constructs a new, empty block under an id no block of the graph has.
\<close>

definition create_block :: "control_flow_graph \<Rightarrow> block_id \<times> control_flow_graph" where
  "create_block cfg =
     (let b = (if blocks cfg = [] then 0 else Suc (fold max (map fst (blocks cfg)) 0)) in
      (b, cfg\<lparr>blocks := blocks cfg @ [(b, \<lparr>is_catch = False, insns = [], succs = []\<rparr>)]\<rparr>))"

text \<open>\<^verbatim>\<open>Block::push_back\<close> appends instructions to a block.\<close>

definition push_back ::
  "control_flow_graph \<Rightarrow> block_id \<Rightarrow> ir_instruction list \<Rightarrow> control_flow_graph" where
  "push_back cfg b new_insns = update_block cfg b (\<lambda>blk. blk\<lparr>insns := insns blk @ new_insns\<rparr>)"

text \<open>
  An instruction pointer is a block and a position in it. The pass takes
  \<^verbatim>\<open>transform.insn\<close> from \<^verbatim>\<open>b->get_last_insn()\<close>, so
  \<^verbatim>\<open>cfg.find_insn(transform.insn)\<close> is the last position of the block when the
  instruction is still there, and the end iterator otherwise.
\<close>

definition find_insn ::
  "control_flow_graph \<Rightarrow> block_id \<Rightarrow> ir_instruction \<Rightarrow> nat option" where
  "find_insn cfg b insn =
     (case find_block cfg b of
        None \<Rightarrow> None
      | Some blk \<Rightarrow>
          if insns blk \<noteq> [] \<and> last (insns blk) = insn then Some (length (insns blk) - 1)
          else None)"

text \<open>
  Modelled from the spec: \<^verbatim>\<open>ControlFlowGraph::replace_insns\<close> (implementation not at
  hand) removes the instruction at a position and inserts the new ones there, in one step.
  It leaves the edges alone. An end iterator is a malformed edit, caught by assertion.
\<close>

definition replace_insns ::
  "control_flow_graph \<Rightarrow> block_id \<Rightarrow> nat option \<Rightarrow> ir_instruction list
   \<Rightarrow> error + control_flow_graph" where
  "replace_insns cfg b it replacements =
     (case it of
        None \<Rightarrow> Inl AssertionFailed
      | Some i \<Rightarrow>
          Inr (update_block cfg b
                 (\<lambda>blk. blk\<lparr>insns := take i (insns blk) @ replacements @ drop (Suc i) (insns blk)\<rparr>)))"

definition set_goto_target :: "edge list \<Rightarrow> block_id \<Rightarrow> edge list" where
  "set_goto_target es t =
     (if list_ex (\<lambda>e. etype e = EDGE_GOTO) es
      then map (\<lambda>e. if etype e = EDGE_GOTO then e\<lparr>target := t\<rparr> else e) es
      else es @ [\<lparr>etype = EDGE_GOTO, case_key = None, target = t\<rparr>])"

text \<open>
  Modelled from the spec: the two-way variant of \<^verbatim>\<open>ControlFlowGraph::create_branch\<close>
  (implementation not at hand) installs the branch instruction as the block's last
  instruction and wires the two edges. As the getter's source comment shows
  (\<^verbatim>\<open>if (depth >= 10) throw\<close>), the first target is the fall-through one and the
  second the one taken when the condition holds.
\<close>

definition create_branch_if ::
  "control_flow_graph \<Rightarrow> block_id \<Rightarrow> ir_instruction \<Rightarrow> block_id \<Rightarrow> block_id
   \<Rightarrow> control_flow_graph" where
  "create_branch_if cfg b insn fls tru =
     update_block cfg b
       (\<lambda>blk. blk\<lparr>insns := insns blk @ [insn],
                   succs := set_goto_target (succs blk) fls @
                            [\<lparr>etype = EDGE_BRANCH, case_key = None, target = tru\<rparr>]\<rparr>)"

text \<open>
  Modelled from the spec: the switch variant of \<^verbatim>\<open>ControlFlowGraph::create_branch\<close>
  (implementation not at hand) requires the keys to be pairwise distinct (a malformed edit
  is caught by assertion), installs the switch instruction as the block's last instruction
  and wires one edge per case, plus the default one when a default target is given.
\<close>

definition create_branch_switch ::
  "control_flow_graph \<Rightarrow> block_id \<Rightarrow> ir_instruction \<Rightarrow> block_id option
   \<Rightarrow> (32 word \<times> block_id) list \<Rightarrow> error + control_flow_graph" where
  "create_branch_switch cfg b insn default_target case_to_block =
     (if \<not> distinct (map fst case_to_block) then Inl AssertionFailed
      else
        Inr (update_block cfg b
               (\<lambda>blk. blk\<lparr>insns := insns blk @ [insn],
                           succs := (case default_target of
                                       None \<Rightarrow> succs blk
                                     | Some d \<Rightarrow> set_goto_target (succs blk) d) @
                                    map (\<lambda>(k, t). \<lparr>etype = EDGE_BRANCH, case_key = Some k,
                                                    target = t\<rparr>) case_to_block\<rparr>)))"

text \<open>
  The loop of \<^verbatim>\<open>apply_transform\<close> over the successor edges of the transformed block:
  every goto edge is retargeted with \<^verbatim>\<open>set_edge_target\<close> (modelled from the spec, the
  implementation is not at hand: it redirects the edge and leaves its type unchanged).
  \<^verbatim>\<open>default_case\<close> is a null pointer when the finder had no default key.
\<close>

definition retarget_gotos ::
  "control_flow_graph \<Rightarrow> block_id \<Rightarrow> block_id option \<Rightarrow> error + control_flow_graph" where
  "retarget_gotos cfg b default_block =
     (case find_block cfg b of
        None \<Rightarrow> Inl NullDereference
      | Some blk \<Rightarrow>
          if list_ex (\<lambda>e. etype e = EDGE_GOTO) (succs blk) then
            (case default_block of
               None \<Rightarrow> Inl NullDereference
             | Some d \<Rightarrow>
                 Inr (update_block cfg b
                        (\<lambda>blk. blk\<lparr>succs := map (\<lambda>e. if etype e = EDGE_GOTO
                                                        then e\<lparr>target := d\<rparr> else e)
                                                 (succs blk)\<rparr>)))
          else Inr cfg)"

text \<open>
  Modelled from the spec: \<^verbatim>\<open>ControlFlowGraph::remove_unreachable_blocks\<close>
  (implementation not at hand) computes reachability from the entry block and deletes the
  unreachable blocks with the instructions and edges they own. Reachability is computed by
  the depth-first walk \<open>order_blocks\<close>.
\<close>

definition remove_unreachable_blocks :: "control_flow_graph \<Rightarrow> control_flow_graph" where
  "remove_unreachable_blocks cfg =
     cfg\<lparr>blocks := filter (\<lambda>(i, blk). i \<in> set (order_blocks cfg)) (blocks cfg)\<rparr>"


section \<open>Applying the transforms of a method\<close>

text \<open>\<^verbatim>\<open>std::to_string\<close> on a \<^verbatim>\<open>size_t\<close>: the decimal digits.\<close>

function to_string :: "nat \<Rightarrow> string" where
  "to_string n =
     (if n < 10 then [''0123456789'' ! n]
      else to_string (n div 10) @ [''0123456789'' ! (n mod 10)])"
  by pat_completeness auto
termination
  by (relation "measure id") auto

declare to_string.simps [simp del]

text \<open>
  A method made by \<^verbatim>\<open>MethodCreator\<close>: its reference, the two \<^verbatim>\<open>rstate\<close> flags
  the pass sets, and its code.
\<close>

record created_method =
  cm_ref :: dex_method_ref
  cm_no_optimizations :: bool
  cm_generated :: bool
  cm_code :: control_flow_graph

text \<open>
  The lambda \<^verbatim>\<open>create_string_getter_method\<close>. \<^verbatim>\<open>MethodCreator\<close> is not part of
  the sources at hand; modelled from the spec, the code it hands out has one entry block
  that loads the \<^verbatim>\<open>int\<close> argument into register 0.
\<close>

definition create_string_getter_method :: "dex_type \<Rightarrow> nat \<Rightarrow> string \<Rightarrow> created_method" where
  "create_string_getter_method method_class transform_count encoded_str =
     (let getter = (method_class, ''__RDX_GET_STR_'' @ to_string transform_count,
                    ''(I)Ljava/lang/String;'');
          getter_cfg = \<lparr>blocks = [(0, \<lparr>is_catch = False,
                                 insns = [(new_instruction IOPCODE_LOAD_PARAM)\<lparr>dest := Some 0\<rparr>],
                                 succs = []\<rparr>)],
                        entry_block = 0, registers_size = 1\<rparr>;
          entry = entry_block getter_cfg;
          (throw_block, getter_cfg) = create_block getter_cfg;
          (non_throw_block, getter_cfg) = create_block getter_cfg;
          (recurse_block, getter_cfg) = create_block getter_cfg;
          (non_null_block, getter_cfg) = create_block getter_cfg;
          (max_depth_reg, getter_cfg) = allocate_temp getter_cfg;
          const_max = (new_instruction OPCODE_CONST)\<lparr>literal := Some 10, dest := Some max_depth_reg\<rparr>;
          getter_cfg = push_back getter_cfg entry [const_max];
          getter_cfg = create_branch_if getter_cfg entry
                         ((new_instruction OPCODE_IF_GE)\<lparr>srcs := [0, max_depth_reg]\<rparr>)
                         non_throw_block throw_block;
          (ex_reg, getter_cfg) = allocate_temp getter_cfg;
          (msg_reg, getter_cfg) = allocate_temp getter_cfg;
          new_instance = (new_instruction OPCODE_NEW_INSTANCE)
                           \<lparr>insn_type := Some ''Ljava/lang/RuntimeException;''\<rparr>;
          move_ex = (new_instruction IOPCODE_MOVE_RESULT_PSEUDO_OBJECT)\<lparr>dest := Some ex_reg\<rparr>;
          msg = (new_instruction OPCODE_CONST_STRING)\<lparr>insn_string := Some ''Unexpected''\<rparr>;
          move_msg = (new_instruction IOPCODE_MOVE_RESULT_PSEUDO_OBJECT)\<lparr>dest := Some msg_reg\<rparr>;
          invoke_init = (new_instruction OPCODE_INVOKE_DIRECT)
                          \<lparr>srcs := [ex_reg, msg_reg],
                           insn_method := Some (''Ljava/lang/RuntimeException;'', ''<init>'',
                                                ''(Ljava/lang/String;)V'')\<rparr>;
          throw_ex = (new_instruction OPCODE_THROW)\<lparr>srcs := [ex_reg]\<rparr>;
          getter_cfg = push_back getter_cfg throw_block
                         [new_instance, move_ex, msg, move_msg, invoke_init, throw_ex];
          (str_reg, getter_cfg) = allocate_temp getter_cfg;
          str = (new_instruction OPCODE_CONST_STRING)\<lparr>insn_string := Some encoded_str\<rparr>;
          move_str = (new_instruction IOPCODE_MOVE_RESULT_PSEUDO_OBJECT)\<lparr>dest := Some str_reg\<rparr>;
          getter_cfg = push_back getter_cfg non_throw_block [str, move_str];
          getter_cfg = create_branch_if getter_cfg non_throw_block
                         ((new_instruction OPCODE_IF_NEZ)\<lparr>srcs := [str_reg]\<rparr>)
                         recurse_block non_null_block;
          ret = (new_instruction OPCODE_RETURN_OBJECT)\<lparr>srcs := [str_reg]\<rparr>;
          getter_cfg = push_back getter_cfg non_null_block [ret];
          (inc_reg, getter_cfg) = allocate_temp getter_cfg;
          (recurse_result_reg, getter_cfg) = allocate_temp getter_cfg;
          add_lit = (new_instruction OPCODE_ADD_INT_LIT)
                      \<lparr>literal := Some 1, srcs := [0], dest := Some inc_reg\<rparr>;
          recurse = (new_instruction OPCODE_INVOKE_STATIC)
                      \<lparr>insn_method := Some getter, srcs := [inc_reg]\<rparr>;
          move_recurse = (new_instruction OPCODE_MOVE_RESULT_OBJECT)
                           \<lparr>dest := Some recurse_result_reg\<rparr>;
          ret_recurse = (new_instruction OPCODE_RETURN_OBJECT)\<lparr>srcs := [recurse_result_reg]\<rparr>;
          getter_cfg = push_back getter_cfg recurse_block
                         [add_lit, recurse, move_recurse, ret_recurse]
      in \<lparr>cm_ref = getter, cm_no_optimizations = True, cm_generated = True,
          cm_code = getter_cfg\<rparr>)"

text \<open>
  The first loop over \<^verbatim>\<open>key_to_case\<close>: the set \<^verbatim>\<open>ordered_types\<close> (a
  \<^verbatim>\<open>std::set\<close> under \<^verbatim>\<open>dextypes_comparator\<close>, kept as its sorted list of distinct
  elements) and the pointer \<^verbatim>\<open>default_case\<close>.
\<close>

fun collect_ordered_types ::
  "(switching_key \<times> block_id) list \<Rightarrow> dex_type list \<Rightarrow> block_id option
   \<Rightarrow> error + (dex_type list \<times> block_id option)" where
  "collect_ordered_types [] ordered_types default_block = Inr (ordered_types, default_block)"
| "collect_ordered_types ((key, blk) # rest) ordered_types default_block =
     (if \<not> is_default_case key then
        (case get_dex_type key of
           Inl e \<Rightarrow> Inl e
         | Inr dtype \<Rightarrow> collect_ordered_types rest (insort_insert dtype ordered_types) default_block)
      else collect_ordered_types rest ordered_types (Some blk))"

definition STRING_TREE_NO_ENTRY :: "16 word" where
  "STRING_TREE_NO_ENTRY = 0"

text \<open>\<^verbatim>\<open>std::map::emplace\<close> keeps the value of a key that is already there.\<close>

definition map_emplace :: "('k \<rightharpoonup> 'v) \<Rightarrow> 'k \<Rightarrow> 'v \<Rightarrow> ('k \<rightharpoonup> 'v)" where
  "map_emplace m k v = (case m k of None \<Rightarrow> m(k \<mapsto> v) | Some _ \<Rightarrow> m)"

text \<open>
  The second loop, over \<^verbatim>\<open>ordered_types\<close>: \<^verbatim>\<open>counter\<close> is an \<^verbatim>\<open>int16_t\<close>, and
  \<^verbatim>\<open>counter++\<close> wraps around; the ordinal is widened to the \<^verbatim>\<open>int32_t\<close> key of the
  new edge. \<^verbatim>\<open>key_to_case.at(type)\<close> throws when the key is missing.
\<close>

fun assign_ordinals ::
  "analysis_env \<Rightarrow> (switching_key \<times> block_id) list \<Rightarrow> dex_type list \<Rightarrow> 16 word
   \<Rightarrow> (string \<rightharpoonup> 16 word) \<Rightarrow> (32 word \<times> block_id) list
   \<Rightarrow> error + ((string \<rightharpoonup> 16 word) \<times> (32 word \<times> block_id) list)" where
  "assign_ordinals env k2c [] counter string_tree_items new_edges =
     Inr (string_tree_items, new_edges)"
| "assign_ordinals env k2c (ty # rest) counter string_tree_items new_edges =
     (let string_name = internal_to_external env ty;
          ordinal = counter;
          counter = counter + 1;
          string_tree_items = map_emplace string_tree_items string_name ordinal
      in case map_of k2c (TypeKey ty) of
           None \<Rightarrow> Inl OutOfRange
         | Some blk \<Rightarrow>
             assign_ordinals env k2c rest counter string_tree_items
               (new_edges @ [(scast ordinal, blk)]))"

text \<open>
  The list of (key, target) pairs that the body of the loop over \<^verbatim>\<open>mt.transforms\<close>
  hands to \<^verbatim>\<open>create_branch\<close>, with the default block found on the way.
\<close>

definition switch_cases_of ::
  "analysis_env \<Rightarrow> branch_transform
   \<Rightarrow> error + ((string \<rightharpoonup> 16 word) \<times> (32 word \<times> block_id) list \<times> block_id option)" where
  "switch_cases_of env transform =
     (case collect_ordered_types (key_to_case (switch_equiv transform)) [] None of
        Inl e \<Rightarrow> Inl e
      | Inr (ordered_types, default_block) \<Rightarrow>
          (case assign_ordinals env (key_to_case (switch_equiv transform)) ordered_types
                  (STRING_TREE_NO_ENTRY + 1) Map.empty [] of
             Inl e \<Rightarrow> Inl e
           | Inr (string_tree_items, new_edges) \<Rightarrow>
               Inr (string_tree_items, new_edges, default_block)))"

text \<open>
  The body of the loop over \<^verbatim>\<open>mt.transforms\<close>, for one transform: the edited graph,
  the getter method it made, and the size of the encoded string.
\<close>

definition apply_branch_transform ::
  "analysis_env \<Rightarrow> pass_state \<Rightarrow> dex_type \<Rightarrow> dex_class option \<Rightarrow> control_flow_graph \<Rightarrow> nat
   \<Rightarrow> branch_transform \<Rightarrow> error + (control_flow_graph \<times> created_method \<times> nat)" where
  "apply_branch_transform env ps method_class cls cfg transform_count transform =
     (case switch_cases_of env transform of
        Inl e \<Rightarrow> Inl e
      | Inr (string_tree_items, new_edges, default_block) \<Rightarrow>
          (let encoded_str = encode_string_tree_map env string_tree_items;
               (zero_depth_reg, cfg) = allocate_temp cfg;
               zero_insn = (new_instruction OPCODE_CONST)
                             \<lparr>literal := Some 0, dest := Some zero_depth_reg\<rparr>;
               (encoded_str_reg, cfg) = allocate_temp cfg
           in case cls of
                None \<Rightarrow> Inl NullDereference
              | Some c \<Rightarrow>
                  (let getter = create_string_getter_method method_class transform_count encoded_str;
                       get_string_insn = (new_instruction OPCODE_INVOKE_STATIC)
                                           \<lparr>insn_method := Some (cm_ref getter),
                                            srcs := [zero_depth_reg]\<rparr>;
                       move_string_insn = (new_instruction OPCODE_MOVE_RESULT_OBJECT)
                                            \<lparr>dest := Some encoded_str_reg\<rparr>;
                       (default_value_reg, cfg) = allocate_temp cfg;
                       default_value_const = (new_instruction OPCODE_CONST)
                                               \<lparr>literal := Some (sint STRING_TREE_NO_ENTRY),
                                                dest := Some default_value_reg\<rparr>;
                       invoke_string_tree = (new_instruction OPCODE_INVOKE_STATIC)
                                              \<lparr>insn_method := Some (lookup_method ps),
                                               srcs := [determining_reg transform, encoded_str_reg,
                                                        default_value_reg]\<rparr>;
                       switch_result_reg = default_value_reg;
                       move_lookup_result = (new_instruction OPCODE_MOVE_RESULT)
                                              \<lparr>dest := Some switch_result_reg\<rparr>;
                       new_switch = (new_instruction OPCODE_SWITCH)\<lparr>srcs := [switch_result_reg]\<rparr>;
                       replacements = [zero_insn, get_string_insn, move_string_insn,
                                       default_value_const, invoke_string_tree, move_lookup_result]
                   in case replace_insns cfg (bt_block transform)
                             (find_insn cfg (bt_block transform) (bt_insn transform)) replacements of
                        Inl e \<Rightarrow> Inl e
                      | Inr cfg \<Rightarrow>
                          (case create_branch_switch cfg (bt_block transform) new_switch None
                                  new_edges of
                             Inl e \<Rightarrow> Inl e
                           | Inr cfg \<Rightarrow>
                               (case retarget_gotos cfg (bt_block transform) default_block of
                                  Inl e \<Rightarrow> Inl e
                                | Inr cfg \<Rightarrow> Inr (cfg, getter, length encoded_str))))))"

text \<open>
  The loop over \<^verbatim>\<open>mt.transforms\<close>: \<^verbatim>\<open>transform_count\<close> goes up by one per transform,
  and \<^verbatim>\<open>result.string_tree_size\<close> is overwritten by each of them.
\<close>

fun apply_branch_transforms ::
  "analysis_env \<Rightarrow> pass_state \<Rightarrow> dex_type \<Rightarrow> dex_class option \<Rightarrow> control_flow_graph \<Rightarrow> nat
   \<Rightarrow> created_method list \<Rightarrow> nat \<Rightarrow> branch_transform list
   \<Rightarrow> error + (control_flow_graph \<times> created_method list \<times> nat)" where
  "apply_branch_transforms env ps method_class cls cfg transform_count getters sz [] =
     Inr (cfg, getters, sz)"
| "apply_branch_transforms env ps method_class cls cfg transform_count getters sz (t # ts) =
     (case apply_branch_transform env ps method_class cls cfg transform_count t of
        Inl e \<Rightarrow> Inl e
      | Inr (cfg', getter, sz') \<Rightarrow>
          apply_branch_transforms env ps method_class cls cfg' (transform_count + 1)
            (getters @ [getter]) sz' ts)"


section \<open>Methods, their code objects, and the pass\<close>

text \<open>
  An \<^verbatim>\<open>IRCode\<close> object lives at an address of a heap; a method holds the address of
  its code (\<open>None\<close> is \<^verbatim>\<open>nullptr\<close>). The flat instruction list of an \<^verbatim>\<open>IRCode\<close> is
  not modelled: a code object is its control-flow graph. \<^verbatim>\<open>added_methods\<close> lists the
  methods handed to \<^verbatim>\<open>DexClass::add_method\<close>, with the class that got them.
\<close>

type_synonym ircode_addr = nat

record dex_method =
  rstate_no_optimizations :: bool
  code_ptr :: "ircode_addr option"

record world =
  ircode_heap :: "ircode_addr \<rightharpoonup> control_flow_graph"
  next_addr :: ircode_addr
  dex_methods :: "dex_method_ref \<rightharpoonup> dex_method"
  added_methods :: "(dex_class \<times> created_method) list"

text \<open>\<^verbatim>\<open>method->get_code()\<close>, dereferenced.\<close>

definition get_code :: "world \<Rightarrow> dex_method \<Rightarrow> control_flow_graph option" where
  "get_code w dm = (case code_ptr dm of None \<Rightarrow> None | Some a \<Rightarrow> ircode_heap w a)"

definition live_code :: "world \<Rightarrow> dex_method_ref \<Rightarrow> control_flow_graph option" where
  "live_code w m = (case dex_methods w m of None \<Rightarrow> None | Some dm \<Rightarrow> get_code w dm)"

text \<open>
  \<^verbatim>\<open>MethodTransform\<close>: \<^verbatim>\<open>code_copy\<close> owns the copied code object, and
  \<^verbatim>\<open>scoped_cfg\<close> is the graph of that same object.
\<close>

record method_transform =
  mt_method :: dex_method_ref
  code_copy :: ircode_addr
  transforms :: "branch_transform list"

record stats =
  methods_transformed :: nat
  const_class_instructions_removed :: nat
  string_tree_size :: nat

text \<open>A default-initialised \<^verbatim>\<open>Stats\<close>.\<close>

definition empty_stats :: stats where
  "empty_stats = \<lparr>methods_transformed = 0, const_class_instructions_removed = 0,
                   string_tree_size = 0\<rparr>"

definition stats_add :: "stats \<Rightarrow> stats \<Rightarrow> stats" where
  "stats_add this that =
     \<lparr>methods_transformed = methods_transformed this + methods_transformed that,
      const_class_instructions_removed =
        const_class_instructions_removed this + const_class_instructions_removed that,
      string_tree_size = string_tree_size this + string_tree_size that\<rparr>"

text \<open>
  \<^verbatim>\<open>gather_possible_transformations\<close>: the copy constructor of \<^verbatim>\<open>IRCode\<close> makes a new
  code object with the contents of the method's code; modelled from the spec (the class is
  not part of the sources at hand), it is a snapshot that shares nothing with the
  original. The copy is simplified and analysed in place. When no transform is planned,
  the copy dies with the function's scope.
\<close>

definition gather_possible_transformations ::
  "analysis_env \<Rightarrow> pass_state \<Rightarrow> dex_method_ref \<Rightarrow> world \<times> method_transform list
   \<Rightarrow> error + (world \<times> method_transform list)" where
  "gather_possible_transformations env ps m st =
     (case st of (w, method_transforms) \<Rightarrow>
      case live_code w m of
        None \<Rightarrow> Inl NullDereference
      | Some code \<Rightarrow>
          (let a = next_addr w;
               w = w\<lparr>ircode_heap := (ircode_heap w)(a \<mapsto> code), next_addr := a + 1\<rparr>;
               w = w\<lparr>ircode_heap := (ircode_heap w)(a \<mapsto> simplify_moves env code)\<rparr>
           in case ircode_heap w a of
                None \<Rightarrow> Inl NullDereference
              | Some cfg \<Rightarrow>
                  (case plan_transforms env ps cfg of
                     Inl e \<Rightarrow> Inl e
                   | Inr gs \<Rightarrow>
                       if planned gs \<noteq> [] then
                         Inr (w, method_transforms @
                                [\<lparr>mt_method = m, code_copy = a, transforms = planned gs\<rparr>])
                       else Inr (w\<lparr>ircode_heap := (ircode_heap w)(a := None)\<rparr>,
                                 method_transforms))))"

text \<open>The body of the lambda that \<^verbatim>\<open>run_pass\<close> hands to the method walker.\<close>

definition gather_method ::
  "analysis_env \<Rightarrow> pass_state \<Rightarrow> dex_method_ref \<Rightarrow> world \<times> method_transform list
   \<Rightarrow> error + (world \<times> method_transform list)" where
  "gather_method env ps m st =
     (case dex_methods (fst st) m of
        None \<Rightarrow> Inl NullDereference
      | Some dm \<Rightarrow>
          if should_consider_method ps
               \<lparr>no_optimizations = rstate_no_optimizations dm, method_code = get_code (fst st) dm\<rparr>
          then gather_possible_transformations env ps m st
          else Inr st)"

text \<open>
  \<^verbatim>\<open>walk::parallel::methods\<close>: every worker handles its methods one by one, a method
  touches only its own code and the copy it makes, and the shared vector is appended to
  under the mutex. A run of the walk is therefore the run over the methods in some order,
  the schedule.
\<close>

fun gather_phase ::
  "analysis_env \<Rightarrow> pass_state \<Rightarrow> dex_method_ref list \<Rightarrow> world \<times> method_transform list
   \<Rightarrow> error + (world \<times> method_transform list)" where
  "gather_phase env ps [] st = Inr st"
| "gather_phase env ps (m # schedule) st =
     (case gather_method env ps m st of
        Inl e \<Rightarrow> Inl e
      | Inr st' \<Rightarrow> gather_phase env ps schedule st')"

text \<open>
  \<^verbatim>\<open>method->set_code(std::move(mt.code_copy))\<close>: the method lets go of its old code
  object, which is destroyed, and owns the given one.
\<close>

definition set_code :: "world \<Rightarrow> dex_method_ref \<Rightarrow> dex_method \<Rightarrow> ircode_addr \<Rightarrow> world" where
  "set_code w m dm a =
     w\<lparr>ircode_heap := (case code_ptr dm of
                            None \<Rightarrow> ircode_heap w
                          | Some old \<Rightarrow> (ircode_heap w)(old := None)),
       dex_methods := (dex_methods w)(m \<mapsto> dm\<lparr>code_ptr := Some a\<rparr>)\<rparr>"

definition apply_transform ::
  "analysis_env \<Rightarrow> pass_state \<Rightarrow> method_transform \<Rightarrow> nat \<Rightarrow> world \<Rightarrow> error + (stats \<times> world)" where
  "apply_transform env ps mt transform_count w =
     (let m = mt_method mt;
          cls = type_class_of env (fst m)
      in case ircode_heap w (code_copy mt) of
           None \<Rightarrow> Inl NullDereference
         | Some cfg \<Rightarrow>
             (let before_const_class_count = num_const_class_opcodes cfg
              in case apply_branch_transforms env ps (fst m) cls cfg transform_count [] 0
                        (transforms mt) of
                   Inl e \<Rightarrow> Inl e
                 | Inr (cfg, getters, sz) \<Rightarrow>
                     (let cfg = remove_unreachable_blocks cfg;
                          result = \<lparr>methods_transformed = 1,
                                    const_class_instructions_removed =
                                      before_const_class_count - num_const_class_opcodes cfg,
                                    string_tree_size = sz\<rparr>;
                          w = w\<lparr>ircode_heap := (ircode_heap w)(code_copy mt \<mapsto> cfg),
                                added_methods := added_methods w @
                                  (case cls of None \<Rightarrow> [] | Some c \<Rightarrow> map (Pair c) getters)\<rparr>
                      in case dex_methods w m of
                           None \<Rightarrow> Inl NullDereference
                         | Some dm \<Rightarrow> Inr (result, set_code w m dm (code_copy mt)))))"

text \<open>
  The map \<^verbatim>\<open>per_class_transforms\<close>: the entries of a class, in the order of the shared
  vector.
\<close>

definition per_class_transforms ::
  "analysis_env \<Rightarrow> method_transform list \<Rightarrow> dex_class \<Rightarrow> method_transform list" where
  "per_class_transforms env method_transforms cls =
     filter (\<lambda>mt. type_class_of env (fst (mt_method mt)) = Some cls) method_transforms"

text \<open>
  The loop of \<^verbatim>\<open>apply_transforms_dex\<close> over the sorted entries, from the back.
\<close>

fun apply_dex_loop ::
  "analysis_env \<Rightarrow> pass_state \<Rightarrow> nat \<Rightarrow> method_transform list \<Rightarrow> nat \<Rightarrow> stats \<times> world
   \<Rightarrow> error + (stats \<times> world)" where
  "apply_dex_loop env ps cap [] transform_count st = Inr st"
| "apply_dex_loop env ps cap (mt # rest) transform_count st =
     (let size = length (transforms mt) in
      if transform_count + size > cap then Inr st
      else
        (case apply_transform env ps mt transform_count (snd st) of
           Inl e \<Rightarrow> Inl e
         | Inr (result, w) \<Rightarrow>
             apply_dex_loop env ps cap rest (transform_count + size)
               (stats_add (fst st) result, w)))"

text \<open>
  \<^verbatim>\<open>std::sort\<close> with \<^verbatim>\<open>compare_dexmethods\<close>: the entries of a dex have pairwise
  different methods, so their sorted order is the only one there is.
\<close>

definition per_dex_transforms ::
  "analysis_env \<Rightarrow> method_transform list \<Rightarrow> dex_class list \<Rightarrow> method_transform list" where
  "per_dex_transforms env method_transforms dex_file =
     sort_key mt_method (concat (map (per_class_transforms env method_transforms) dex_file))"

definition apply_transforms_dex ::
  "analysis_env \<Rightarrow> pass_state \<Rightarrow> nat \<Rightarrow> method_transform list \<Rightarrow> dex_class list
   \<Rightarrow> stats \<times> world \<Rightarrow> error + (stats \<times> world)" where
  "apply_transforms_dex env ps cap method_transforms dex_file st =
     apply_dex_loop env ps cap (rev (per_dex_transforms env method_transforms dex_file)) 0 st"

text \<open>The loops over the stores and their dex files: all dex files, in order.\<close>

fun apply_phase ::
  "analysis_env \<Rightarrow> pass_state \<Rightarrow> nat \<Rightarrow> method_transform list \<Rightarrow> dex_class list list
   \<Rightarrow> stats \<times> world \<Rightarrow> error + (stats \<times> world)" where
  "apply_phase env ps cap method_transforms [] st = Inr st"
| "apply_phase env ps cap method_transforms (dex_file # dex_files) st =
     (case apply_transforms_dex env ps cap method_transforms dex_file st of
        Inl e \<Rightarrow> Inl e
      | Inr st' \<Rightarrow> apply_phase env ps cap method_transforms dex_files st')"


section \<open>The pass object and the pass manager\<close>

record reserve_refs_info =
  frefs :: nat
  trefs :: nat
  mrefs :: nat

text \<open>
  Modelled from the spec: the pass manager (not part of the sources at hand) keeps the
  reservations of references that passes have made and not yet released, each under a
  handle, and the named metrics.
\<close>

record pass_manager =
  reserved_refs :: "(nat \<times> string \<times> reserve_refs_info) list"
  next_handle :: nat
  metrics :: "string \<rightharpoonup> nat"



definition incr_metric :: "pass_manager \<Rightarrow> string \<Rightarrow> nat \<Rightarrow> pass_manager" where
  "incr_metric mgr key v =
     mgr\<lparr>metrics := (metrics mgr)(key \<mapsto> (case metrics mgr key of None \<Rightarrow> 0 | Some x \<Rightarrow> x) + v)\<rparr>"

text \<open>
  The members of \<^verbatim>\<open>TransformConstClassBranchesPass\<close>. Their declarations are in a header
  that is not part of the sources at hand; the sizes are natural numbers.
\<close>

record pass_object =
  m_consider_external_classes :: bool
  m_min_cases :: nat
  m_max_cases :: nat
  m_string_tree_lookup_method :: string
  m_max_transforms_per_dex :: nat
  m_reserved_refs_handle :: "nat option"

text \<open>\<^verbatim>\<open>bind_config\<close> when the configuration overrides nothing.\<close>

definition bind_config :: pass_object where
  "bind_config = \<lparr>m_consider_external_classes = False, m_min_cases = 5, m_max_cases = 2000,
     m_string_tree_lookup_method = [], m_max_transforms_per_dex = 10,
     m_reserved_refs_handle = None\<rparr>"








section \<open>A method with an if-chain over class constants\<close>

text \<open>
  The graph of a method that compares the class in register 0 with two class constants and
  falls through to a default block; every leaf loads a class constant of its own. Block 5
  is a catch handler that nothing reaches.
\<close>

definition const_class_then_if :: "dex_type \<Rightarrow> ir_instruction list" where
  "const_class_then_if ty =
     [(new_instruction OPCODE_CONST_CLASS)\<lparr>insn_type := Some ty\<rparr>,
      (new_instruction IOPCODE_MOVE_RESULT_PSEUDO_OBJECT)\<lparr>dest := Some 1\<rparr>,
      (new_instruction OPCODE_IF_EQ)\<lparr>srcs := [0, 1]\<rparr>]"

definition const_class_then_return :: "dex_type \<Rightarrow> ir_instruction list" where
  "const_class_then_return ty =
     [(new_instruction OPCODE_CONST_CLASS)\<lparr>insn_type := Some ty\<rparr>,
      (new_instruction IOPCODE_MOVE_RESULT_PSEUDO_OBJECT)\<lparr>dest := Some 2\<rparr>,
      (new_instruction OPCODE_RETURN_OBJECT)\<lparr>srcs := [2]\<rparr>]"

definition if_chain_cfg :: control_flow_graph where
  "if_chain_cfg = \<lparr>blocks =
      [(0, \<lparr>is_catch = False, insns = const_class_then_if ''LA;'',
            succs = [\<lparr>etype = EDGE_GOTO, case_key = None, target = 1\<rparr>,
                     \<lparr>etype = EDGE_BRANCH, case_key = None, target = 3\<rparr>]\<rparr>),
       (1, \<lparr>is_catch = False, insns = const_class_then_if ''LB;'',
            succs = [\<lparr>etype = EDGE_GOTO, case_key = None, target = 2\<rparr>,
                     \<lparr>etype = EDGE_BRANCH, case_key = None, target = 4\<rparr>]\<rparr>),
       (2, \<lparr>is_catch = False, insns = const_class_then_return ''LX;'', succs = []\<rparr>),
       (3, \<lparr>is_catch = False, insns = const_class_then_return ''LY;'', succs = []\<rparr>),
       (4, \<lparr>is_catch = False, insns = const_class_then_return ''LZ;'', succs = []\<rparr>),
       (5, \<lparr>is_catch = True, insns = [new_instruction (OPCODE_OTHER 0)],
            succs = [\<lparr>etype = EDGE_GOTO, case_key = None, target = 2\<rparr>]\<rparr>)],
     entry_block = 0, registers_size = 3\<rparr>"

definition lookup_ref :: dex_method_ref where
  "lookup_ref = (''Lcom/facebook/redex/StringTreeLookup;'', ''search'',
                 ''(Ljava/lang/Class;Ljava/lang/String;I)I'')"

text \<open>Pass states with the lower bound on the cases at 2 and at the default 5.\<close>

definition ps_min2 :: pass_state where
  "ps_min2 = \<lparr>lookup_method = lookup_ref, consider_external_classes = False,
               min_cases = 2, max_cases = 2000\<rparr>"

definition ps_min5 :: pass_state where
  "ps_min5 = \<lparr>lookup_method = lookup_ref, consider_external_classes = False,
               min_cases = 5, max_cases = 2000\<rparr>"

text \<open>
  Collaborators for the example: the determining register of the two branch blocks is
  register 0, and the finder run from block 0 returns the dispatch of the chain.
\<close>

definition example_env :: analysis_env where
  "example_env = \<lparr>
     simplify_moves = (\<lambda>cfg. cfg),
     find_determining_reg = (\<lambda>cfg b. if b = 0 \<or> b = 1 then Some 0 else None),
     run_switch_equiv_finder = (\<lambda>cfg b reg.
        if b = 0 then \<lparr>success = True,
                        key_to_case = [(DefaultCase, 2), (TypeKey ''LA;'', 3), (TypeKey ''LB;'', 4)],
                        extra_loads = [], visited_blocks = [0, 1, 2, 3, 4]\<rparr>
        else \<lparr>success = False, key_to_case = [], extra_loads = [], visited_blocks = []\<rparr>),
     type_class_of = (\<lambda>ty. if ty \<in> {''LA;'', ''LB;'', ''LFoo;''}
                            then Some \<lparr>class_type = ty, is_external = False\<rparr> else None),
     internal_to_external = (\<lambda>s. map (\<lambda>c. if c = CHR ''/'' then CHR ''.'' else c) (butlast (tl s))),
     encode_string_tree_map = (\<lambda>items. concat (map (\<lambda>k. case items k of None \<Rightarrow> [] | Some v \<Rightarrow> k @ '';'') [''A'', ''B''])),
     get_method = (\<lambda>s. if s = ''Lcom/facebook/redex/StringTreeLookup;.search:(Ljava/lang/Class;Ljava/lang/String;I)I'' then Some lookup_ref else None)\<rparr>"

text \<open>
  A class with three methods: two with the if-chain above, each with its own code object,
  and one without code. The walk gets to them in the order of \<open>example_schedule\<close>.
  \<open>gathered_world\<close> is the world after the gathering phase, with the copies of the two
  if-chain methods at the addresses 2 and 3, and \<open>gathered_transforms\<close> the shared vector.
\<close>

definition foo_bar :: dex_method_ref where
  "foo_bar = (''LFoo;'', ''bar'', ''(Ljava/lang/Class;)Ljava/lang/Object;'')"

definition foo_baz :: dex_method_ref where
  "foo_baz = (''LFoo;'', ''baz'', ''(Ljava/lang/Class;)Ljava/lang/Object;'')"

definition foo_nop :: dex_method_ref where
  "foo_nop = (''LFoo;'', ''nop'', ''()V'')"

definition example_world :: world where
  "example_world = \<lparr>
     ircode_heap = [0 \<mapsto> if_chain_cfg, 1 \<mapsto> if_chain_cfg],
     next_addr = 2,
     dex_methods = [foo_bar \<mapsto> \<lparr>rstate_no_optimizations = False, code_ptr = Some 0\<rparr>,
                    foo_baz \<mapsto> \<lparr>rstate_no_optimizations = False, code_ptr = Some 1\<rparr>,
                    foo_nop \<mapsto> \<lparr>rstate_no_optimizations = False, code_ptr = None\<rparr>],
     added_methods = []\<rparr>"

definition example_schedule :: "dex_method_ref list" where
  "example_schedule = [foo_baz, foo_nop, foo_bar]"

definition if_chain_transform :: branch_transform where
  "if_chain_transform = \<lparr>bt_block = 0, bt_insn = (new_instruction OPCODE_IF_EQ)\<lparr>srcs := [0, 1]\<rparr>,
     determining_reg = 0, switch_equiv = run_switch_equiv_finder example_env if_chain_cfg 0 0\<rparr>"

definition baz_transform :: method_transform where
  "baz_transform = \<lparr>mt_method = foo_baz, code_copy = 2, transforms = [if_chain_transform]\<rparr>"

definition bar_transform :: method_transform where
  "bar_transform = \<lparr>mt_method = foo_bar, code_copy = 3, transforms = [if_chain_transform]\<rparr>"

definition gathered_transforms :: "method_transform list" where
  "gathered_transforms = [baz_transform, bar_transform]"

definition gathered_world :: world where
  "gathered_world = example_world\<lparr>
     ircode_heap := (ircode_heap example_world)(2 \<mapsto> if_chain_cfg, 3 \<mapsto> if_chain_cfg),
     next_addr := 4\<rparr>"

text \<open>
  The graph of the example after the transform of its chain, with the getter numbered
  \<open>n\<close>, before and after the removal of the unreachable blocks 1 and 5.
\<close>

definition edited_if_chain_cfg :: "nat \<Rightarrow> control_flow_graph" where
  "edited_if_chain_cfg n = \<lparr>blocks =
      [(0, \<lparr>is_catch = False,
            insns = [(new_instruction OPCODE_CONST_CLASS)\<lparr>insn_type := Some ''LA;''\<rparr>,
                     (new_instruction IOPCODE_MOVE_RESULT_PSEUDO_OBJECT)\<lparr>dest := Some 1\<rparr>,
                     (new_instruction OPCODE_CONST)\<lparr>literal := Some 0, dest := Some 3\<rparr>,
                     (new_instruction OPCODE_INVOKE_STATIC)
                       \<lparr>insn_method := Some (''LFoo;'', ''__RDX_GET_STR_'' @ to_string n,
                                             ''(I)Ljava/lang/String;''),
                        srcs := [3]\<rparr>,
                     (new_instruction OPCODE_MOVE_RESULT_OBJECT)\<lparr>dest := Some 4\<rparr>,
                     (new_instruction OPCODE_CONST)\<lparr>literal := Some 0, dest := Some 5\<rparr>,
                     (new_instruction OPCODE_INVOKE_STATIC)
                       \<lparr>insn_method := Some lookup_ref, srcs := [0, 4, 5]\<rparr>,
                     (new_instruction OPCODE_MOVE_RESULT)\<lparr>dest := Some 5\<rparr>,
                     (new_instruction OPCODE_SWITCH)\<lparr>srcs := [5]\<rparr>],
            succs = [\<lparr>etype = EDGE_GOTO, case_key = None, target = 2\<rparr>,
                     \<lparr>etype = EDGE_BRANCH, case_key = None, target = 3\<rparr>,
                     \<lparr>etype = EDGE_BRANCH, case_key = Some 1, target = 3\<rparr>,
                     \<lparr>etype = EDGE_BRANCH, case_key = Some 2, target = 4\<rparr>]\<rparr>),
       (1, \<lparr>is_catch = False, insns = const_class_then_if ''LB;'',
            succs = [\<lparr>etype = EDGE_GOTO, case_key = None, target = 2\<rparr>,
                     \<lparr>etype = EDGE_BRANCH, case_key = None, target = 4\<rparr>]\<rparr>),
       (2, \<lparr>is_catch = False, insns = const_class_then_return ''LX;'', succs = []\<rparr>),
       (3, \<lparr>is_catch = False, insns = const_class_then_return ''LY;'', succs = []\<rparr>),
       (4, \<lparr>is_catch = False, insns = const_class_then_return ''LZ;'', succs = []\<rparr>),
       (5, \<lparr>is_catch = True, insns = [new_instruction (OPCODE_OTHER 0)],
            succs = [\<lparr>etype = EDGE_GOTO, case_key = None, target = 2\<rparr>]\<rparr>)],
     entry_block = 0, registers_size = 6\<rparr>"

definition foo_class :: dex_class where
  "foo_class = \<lparr>class_type = ''LFoo;'', is_external = False\<rparr>"

definition pruned_if_chain_cfg :: "nat \<Rightarrow> control_flow_graph" where
  "pruned_if_chain_cfg n =
     (edited_if_chain_cfg n)\<lparr>blocks := filter (\<lambda>(i, blk). i \<in> {0, 2, 3, 4})
                                        (blocks (edited_if_chain_cfg n))\<rparr>"

section \<open>Properties of the block order\<close>

text \<open>The successor relation of a graph.\<close>

definition succ_rel :: "control_flow_graph \<Rightarrow> (block_id \<times> block_id) set" where
  "succ_rel cfg = {(a, b). b \<in> set (succ_targets cfg a)}"

lemma order_blocks_loop_prefix:
  "\<exists>ys. order_blocks_loop cfg to_visit visited out = out @ ys"
  by (induction cfg to_visit visited out rule: order_blocks_loop.induct) auto

lemma order_blocks_loop_distinct:
  "distinct out \<Longrightarrow> set out \<subseteq> visited \<Longrightarrow> distinct (order_blocks_loop cfg to_visit visited out)"
  by (induction cfg to_visit visited out rule: order_blocks_loop.induct) auto

lemma order_blocks_loop_sound:
  "x \<in> set (order_blocks_loop cfg to_visit visited out) \<Longrightarrow>
   x \<in> set out \<or> (\<exists>s \<in> set to_visit. (s, x) \<in> (succ_rel cfg)\<^sup>*)"
proof (induction cfg to_visit visited out rule: order_blocks_loop.induct)
  case (1 cfg visited out)
  then show ?case by simp
next
  case (2 cfg b to_visit visited out)
  show ?case
  proof (cases "b \<in> visited")
    case True
    with 2 show ?thesis by auto
  next
    case False
    with 2 have "x \<in> set (out @ [b]) \<or>
        (\<exists>s \<in> set (rev (succ_targets cfg b) @ to_visit). (s, x) \<in> (succ_rel cfg)\<^sup>*)"
      by simp
    then consider "x \<in> set out" | "x = b"
      | s where "s \<in> set (succ_targets cfg b)" "(s, x) \<in> (succ_rel cfg)\<^sup>*"
      | s where "s \<in> set to_visit" "(s, x) \<in> (succ_rel cfg)\<^sup>*"
      by auto
    then show ?thesis
    proof cases
      case 3
      then have "(b, s) \<in> succ_rel cfg" by (simp add: succ_rel_def)
      with 3 have "(b, x) \<in> (succ_rel cfg)\<^sup>*" by (meson converse_rtrancl_into_rtrancl)
      then show ?thesis by auto
    qed auto
  qed
qed

lemma order_blocks_loop_closed:
  assumes "visited = set out"
  shows "set to_visit \<subseteq> set (order_blocks_loop cfg to_visit visited out) \<and>
         (\<forall>x \<in> set (order_blocks_loop cfg to_visit visited out) - set out.
            set (succ_targets cfg x) \<subseteq> set (order_blocks_loop cfg to_visit visited out))"
  using assms
proof (induction cfg to_visit visited out rule: order_blocks_loop.induct)
  case (1 cfg visited out)
  then show ?case by simp
next
  case (2 cfg b to_visit visited out)
  show ?case
  proof (cases "b \<in> visited")
    case True
    obtain ys where "order_blocks_loop cfg to_visit visited out = out @ ys"
      using order_blocks_loop_prefix by blast
    with True 2 show ?thesis by auto
  next
    case False
    let ?R = "order_blocks_loop cfg (rev (succ_targets cfg b) @ to_visit) (insert b visited) (out @ [b])"
    have ih: "set (rev (succ_targets cfg b) @ to_visit) \<subseteq> set ?R \<and>
         (\<forall>x \<in> set ?R - set (out @ [b]). set (succ_targets cfg x) \<subseteq> set ?R)"
      using 2 False by simp
    obtain ys where ys: "?R = (out @ [b]) @ ys"
      using order_blocks_loop_prefix by blast
    then have "b \<in> set ?R" by simp
    with ih False show ?thesis by auto
  qed
qed

lemma order_blocks_first: "\<exists>ys. order_blocks cfg = entry_block cfg # ys"
  using order_blocks_loop_prefix[of cfg "rev (succ_targets cfg (entry_block cfg))"
          "{entry_block cfg}" "[entry_block cfg]"]
  by (simp add: order_blocks_def)

lemma order_blocks_complete:
  assumes "(entry_block cfg, x) \<in> (succ_rel cfg)\<^sup>*"
  shows "x \<in> set (order_blocks cfg)"
  using assms
proof (induction rule: rtrancl_induct)
  case base
  then show ?case using order_blocks_first[of cfg] by auto
next
  case (step y z)
  then show ?case
    using order_blocks_loop_closed[of "{}" "[]" "[entry_block cfg]" cfg]
    by (auto simp: order_blocks_def succ_rel_def)
qed

lemma order_blocks_sound:
  assumes "x \<in> set (order_blocks cfg)"
  shows "(entry_block cfg, x) \<in> (succ_rel cfg)\<^sup>*"
  using order_blocks_loop_sound[of x cfg "[entry_block cfg]" "{}" "[]"] assms
  by (simp add: order_blocks_def)

lemma set_order_blocks: "set (order_blocks cfg) = {b. (entry_block cfg, b) \<in> (succ_rel cfg)\<^sup>*}"
  using order_blocks_sound order_blocks_complete by blast

lemma distinct_order_blocks: "distinct (order_blocks cfg)"
  by (simp add: order_blocks_def order_blocks_loop_distinct)

lemma order_blocks_if_chain_cfg: "order_blocks if_chain_cfg = [0, 3, 1, 4, 2]"
  by (simp add: order_blocks_def if_chain_cfg_def succ_targets_def find_block_def)

text \<open>
  Claim C9. For every graph, the list that \<open>order_blocks\<close> produces starts with the entry
  block, holds no block twice, and holds a block if and only if the block can be reached
  from the entry block along successor edges.
\<close>

theorem order_blocks_entry_first_distinct_reachable:
  "order_blocks cfg \<noteq> [] \<and>
   hd (order_blocks cfg) = entry_block cfg \<and>
   distinct (order_blocks cfg) \<and>
   set (order_blocks cfg) = {b. (entry_block cfg, b) \<in> (succ_rel cfg)\<^sup>*}"
  using order_blocks_first[of cfg] distinct_order_blocks[of cfg] set_order_blocks[of cfg]
  by auto

text \<open>
  In the example graph the walk lists the five blocks of the chain, entry first; the catch
  handler 5 is not listed, hence not reachable.
\<close>

theorem order_blocks_entry_first_distinct_reachable_witness:
  "order_blocks if_chain_cfg = [0, 3, 1, 4, 2] \<and>
   hd (order_blocks if_chain_cfg) = 0 \<and>
   distinct (order_blocks if_chain_cfg) \<and>
   (entry_block if_chain_cfg, 5) \<notin> (succ_rel if_chain_cfg)\<^sup>* \<and>
   (entry_block if_chain_cfg, 4) \<in> (succ_rel if_chain_cfg)\<^sup>*"
proof -
  have "set (order_blocks if_chain_cfg) = {b. (entry_block if_chain_cfg, b) \<in> (succ_rel if_chain_cfg)\<^sup>*}"
    using order_blocks_entry_first_distinct_reachable[of if_chain_cfg] by simp
  then have "\<And>b. (entry_block if_chain_cfg, b) \<in> (succ_rel if_chain_cfg)\<^sup>* \<longleftrightarrow> b \<in> {0, 3, 1, 4, 2}"
    by (simp only: order_blocks_if_chain_cfg) auto
  then show ?thesis
    by (simp add: order_blocks_if_chain_cfg)
qed


section \<open>Properties of the quick filter\<close>

lemma scan_blocks_Some_True:
  "scan_blocks bs = Some True \<longleftrightarrow>
     (\<exists>i < length bs. ends_in_if_statment (bs ! i) \<and>
        (\<forall>j < i. \<not> ends_in_if_statment (bs ! j)) \<and> (\<forall>j \<le> i. \<not> is_catch (bs ! j)))"
proof (induction bs)
  case Nil
  then show ?case by simp
next
  case (Cons b bs)
  show ?case
  proof (cases "is_catch b")
    case True
    then have "\<not> (\<exists>i < length (b # bs). ends_in_if_statment ((b # bs) ! i) \<and>
        (\<forall>j < i. \<not> ends_in_if_statment ((b # bs) ! j)) \<and> (\<forall>j \<le> i. \<not> is_catch ((b # bs) ! j)))"
      by (metis le0 nth_Cons_0)
    with True show ?thesis by simp
  next
    case nc: False
    show ?thesis
    proof (cases "ends_in_if_statment b")
      case True
      with nc have "ends_in_if_statment ((b # bs) ! 0) \<and>
        (\<forall>j < 0. \<not> ends_in_if_statment ((b # bs) ! j)) \<and> (\<forall>j \<le> 0. \<not> is_catch ((b # bs) ! j))"
        by simp
      then have "\<exists>i < length (b # bs). ends_in_if_statment ((b # bs) ! i) \<and>
        (\<forall>j < i. \<not> ends_in_if_statment ((b # bs) ! j)) \<and> (\<forall>j \<le> i. \<not> is_catch ((b # bs) ! j))"
        by (intro exI[of _ 0]) simp
      with nc True show ?thesis by simp
    next
      case False
      have "(\<exists>i < length (b # bs). ends_in_if_statment ((b # bs) ! i) \<and>
        (\<forall>j < i. \<not> ends_in_if_statment ((b # bs) ! j)) \<and> (\<forall>j \<le> i. \<not> is_catch ((b # bs) ! j)))
        \<longleftrightarrow> (\<exists>i < length bs. ends_in_if_statment (bs ! i) \<and>
        (\<forall>j < i. \<not> ends_in_if_statment (bs ! j)) \<and> (\<forall>j \<le> i. \<not> is_catch (bs ! j)))"
        (is "?L \<longleftrightarrow> ?R")
      proof
        assume ?L
        then obtain i where i: "i < length (b # bs)" "ends_in_if_statment ((b # bs) ! i)"
          "\<forall>j < i. \<not> ends_in_if_statment ((b # bs) ! j)" "\<forall>j \<le> i. \<not> is_catch ((b # bs) ! j)"
          by blast
        with False obtain k where k: "i = Suc k" by (cases i) auto
        have "\<forall>j < k. \<not> ends_in_if_statment (bs ! j)"
          using i(3) k by (metis Suc_less_eq nth_Cons_Suc)
        moreover have "\<forall>j \<le> k. \<not> is_catch (bs ! j)"
          using i(4) k by (metis Suc_le_mono nth_Cons_Suc)
        ultimately show ?R using i(1,2) k by auto
      next
        assume ?R
        then obtain i where i: "i < length bs" "ends_in_if_statment (bs ! i)"
          "\<forall>j < i. \<not> ends_in_if_statment (bs ! j)" "\<forall>j \<le> i. \<not> is_catch (bs ! j)"
          by blast
        have "\<forall>j < Suc i. \<not> ends_in_if_statment ((b # bs) ! j)"
          using i(3) False by (auto simp: nth_Cons split: nat.splits)
        moreover have "\<forall>j \<le> Suc i. \<not> is_catch ((b # bs) ! j)"
          using i(4) nc by (auto simp: nth_Cons split: nat.splits)
        ultimately show ?L using i(1,2) by (intro exI[of _ "Suc i"]) simp
      qed
      with nc False Cons.IH show ?thesis by simp
    qed
  qed
qed

text \<open>
  Claim C10. \<open>should_consider_method\<close> returns true only if the method is not marked
  no-optimizations, has code, the graph of the code has a block that ends in an if-eq or
  if-ne instruction, the graph has at least \<open>min_cases\<close> const-class instructions, and
  no catch block comes before the first such branch block in the iteration order of the
  blocks (nor is that block one). So a method whose first special block is a catch handler
  is rejected.
\<close>

theorem should_consider_method_only_if:
  assumes "should_consider_method ps method"
  shows "\<not> no_optimizations method \<and>
     (\<exists>cfg. method_code method = Some cfg \<and>
        min_cases ps \<le> num_const_class_opcodes cfg \<and>
        (\<exists>i < length (blocks cfg).
           ends_in_if_statment (snd (blocks cfg ! i)) \<and>
           (\<forall>j < i. \<not> ends_in_if_statment (snd (blocks cfg ! j))) \<and>
           (\<forall>j \<le> i. \<not> is_catch (snd (blocks cfg ! j)))))"
proof -
  from assms have no: "\<not> no_optimizations method"
    by (auto simp: should_consider_method_def)
  with assms obtain cfg where cfg: "method_code method = Some cfg"
    by (cases "method_code method") (auto simp: should_consider_method_def)
  with assms no have sc: "scan_blocks (map snd (blocks cfg)) = Some True"
    and cnt: "min_cases ps \<le> num_const_class_opcodes cfg"
    by (auto simp: should_consider_method_def split: option.splits)
  from sc obtain i where i: "i < length (blocks cfg)"
      "ends_in_if_statment (map snd (blocks cfg) ! i)"
      "\<forall>j < i. \<not> ends_in_if_statment (map snd (blocks cfg) ! j)"
      "\<forall>j \<le> i. \<not> is_catch (map snd (blocks cfg) ! j)"
    unfolding scan_blocks_Some_True by auto
  then have "ends_in_if_statment (snd (blocks cfg ! i)) \<and>
           (\<forall>j < i. \<not> ends_in_if_statment (snd (blocks cfg ! j))) \<and>
           (\<forall>j \<le> i. \<not> is_catch (snd (blocks cfg ! j)))"
    by simp
  with no cfg cnt i(1) show ?thesis by blast
qed

definition if_chain_view :: method_view where
  "if_chain_view = \<lparr>no_optimizations = False, method_code = Some if_chain_cfg\<rparr>"

lemma should_consider_if_chain: "should_consider_method ps_min5 if_chain_view"
  by (simp add: should_consider_method_def if_chain_view_def ps_min5_def if_chain_cfg_def
      num_const_class_opcodes_def cfg_instructions_def ends_in_if_statment_def is_if_eq_def
      is_if_ne_def new_instruction_def const_class_then_if_def const_class_then_return_def)

theorem should_consider_method_only_if_witness:
  "should_consider_method ps_min5 if_chain_view \<and>
   \<not> no_optimizations if_chain_view \<and>
   (\<exists>cfg. method_code if_chain_view = Some cfg \<and>
        min_cases ps_min5 \<le> num_const_class_opcodes cfg \<and>
        (\<exists>i < length (blocks cfg).
           ends_in_if_statment (snd (blocks cfg ! i)) \<and>
           (\<forall>j < i. \<not> ends_in_if_statment (snd (blocks cfg ! j))) \<and>
           (\<forall>j \<le> i. \<not> is_catch (snd (blocks cfg ! j)))))"
  using should_consider_method_only_if[OF should_consider_if_chain] should_consider_if_chain
  by simp

text \<open>The rejection of a method whose first special block is a catch handler.\<close>

lemma catch_handler_first_rejected:
  assumes "method_code method = Some cfg" and "k < length (blocks cfg)"
    and "is_catch (snd (blocks cfg ! k))"
    and "\<forall>j < k. \<not> ends_in_if_statment (snd (blocks cfg ! j))"
  shows "\<not> should_consider_method ps method"
proof
  assume "should_consider_method ps method"
  then have "scan_blocks (map snd (blocks cfg)) = Some True"
    using assms(1) by (auto simp: should_consider_method_def split: option.splits if_splits)
  then obtain i where i: "i < length (blocks cfg)"
      "ends_in_if_statment (map snd (blocks cfg) ! i)"
      "\<forall>j \<le> i. \<not> is_catch (map snd (blocks cfg) ! j)"
    unfolding scan_blocks_Some_True by auto
  have "k \<le> i"
  proof (rule ccontr)
    assume "\<not> k \<le> i"
    then have "i < k" by simp
    with assms(4) i(1,2) show False by simp
  qed
  with i(3) have "\<not> is_catch (map snd (blocks cfg) ! k)" by blast
  with assms(2,3) show False by simp
qed


section \<open>Properties of the gathering loop\<close>

text \<open>
  A graph is well formed when its entry block and the target of each of its edges are
  blocks it holds.
\<close>

definition cfg_wf :: "control_flow_graph \<Rightarrow> bool" where
  "cfg_wf cfg = (entry_block cfg \<in> fst ` set (blocks cfg) \<and>
                 edge_targets cfg \<subseteq> fst ` set (blocks cfg))"


lemma relevant_case_count_uniform:
  "list_all (\<lambda>(key, leaf). is_default_case key \<or> kind_of_key key = Some KeyKind_CLASS) k2c \<Longrightarrow>
   \<exists>n'. relevant_case_count env ps k2c n = Inr n'"
proof (induction k2c arbitrary: n)
  case Nil
  then show ?case by simp
next
  case (Cons kv k2c)
  obtain key leaf where kv: "kv = (key, leaf)" by (cases kv)
  show ?case
  proof (cases key)
    case DefaultCase
    with Cons kv show ?thesis by (simp add: is_default_case_def)
  next
    case (IntKey x)
    with Cons kv show ?thesis by (simp add: is_default_case_def kind_of_key_def)
  next
    case (TypeKey ty)
    with Cons kv show ?thesis by (simp add: is_default_case_def get_dex_type_def Let_def)
  qed
qed

lemma gather_block_total:
  assumes "find_block cfg b \<noteq> None"
  shows "\<exists>st'. gather_block env ps cfg st b = Inr st'"
proof -
  have cnt: "finder_results_are_supported f \<Longrightarrow> \<exists>n. relevant_case_count env ps (key_to_case f) 0 = Inr n" for f
    using relevant_case_count_uniform[of "key_to_case f" env ps 0]
    by (simp add: finder_results_are_supported_def are_keys_uniform_def)
  show ?thesis
  proof (cases "b \<in> blocks_considered st")
    case True
    then show ?thesis by (simp add: gather_block_def)
  next
    case False
    from assms obtain blk where blk: "find_block cfg b = Some blk" by auto
    show ?thesis
    proof (cases "ends_in_if_statment blk \<and> find_determining_reg env cfg b \<noteq> None")
      case nf: False
      with False blk show ?thesis
        by (auto simp: gather_block_def Let_def split: option.splits)
    next
      case True
      then obtain reg where reg: "find_determining_reg env cfg b = Some reg" by auto
      show ?thesis
      proof (cases "finder_results_are_supported (run_switch_equiv_finder env cfg b reg)")
        case ns: False
        with False blk True reg show ?thesis
          by (simp add: gather_block_def Let_def)
      next
        case sup: True
        from cnt[OF sup] obtain n where
          "relevant_case_count env ps (key_to_case (run_switch_equiv_finder env cfg b reg)) 0 = Inr n"
          by blast
        with False blk True reg sup show ?thesis
          by (simp add: gather_block_def Let_def)
      qed
    qed
  qed
qed

lemma gather_blocks_total:
  assumes "\<forall>b \<in> set bs. find_block cfg b \<noteq> None"
  shows "\<exists>st'. gather_blocks env ps cfg st bs = Inr st'"
  using assms
proof (induction bs arbitrary: st)
  case Nil
  then show ?case by simp
next
  case (Cons b bs)
  then obtain st1 where "gather_block env ps cfg st b = Inr st1"
    using gather_block_total[of cfg b env ps st] by auto
  with Cons show ?case by simp
qed

text \<open>What a recorded transform says about the root it was recorded at.\<close>

definition recorded_at :: "analysis_env \<Rightarrow> pass_state \<Rightarrow> control_flow_graph \<Rightarrow> branch_transform \<Rightarrow> bool" where
  "recorded_at env ps cfg t =
     ((case find_block cfg (bt_block t) of
         None \<Rightarrow> False
       | Some blk \<Rightarrow> ends_in_if_statment blk \<and> bt_insn t = last (insns blk)) \<and>
      find_determining_reg env cfg (bt_block t) = Some (determining_reg t) \<and>
      switch_equiv t = run_switch_equiv_finder env cfg (bt_block t) (determining_reg t) \<and>
      finder_results_are_supported (switch_equiv t) \<and>
      (case relevant_case_count env ps (key_to_case (switch_equiv t)) 0 of
         Inl e \<Rightarrow> False
       | Inr n \<Rightarrow> min_cases ps \<le> n \<and> n \<le> max_cases ps))"

lemma gather_block_planned:
  assumes "gather_block env ps cfg st b = Inr st'"
    and "t \<in> set (planned st')"
  shows "t \<in> set (planned st) \<or>
         (recorded_at env ps cfg t \<and> bt_block t = b \<and> b \<notin> blocks_considered st \<and> b \<in> set (finder_runs st'))"
  using assms
  by (auto simp: gather_block_def Let_def recorded_at_def
      split: if_splits option.splits sum.splits)

lemma gather_block_finder_runs:
  assumes "gather_block env ps cfg st b = Inr st'"
  shows "set (finder_runs st) \<subseteq> set (finder_runs st')"
  using assms
  by (auto simp: gather_block_def Let_def split: if_splits option.splits sum.splits)

lemma gather_blocks_finder_runs:
  assumes "gather_blocks env ps cfg st bs = Inr st'"
  shows "set (finder_runs st) \<subseteq> set (finder_runs st')"
  using assms
proof (induction bs arbitrary: st)
  case Nil
  then show ?case by simp
next
  case (Cons b bs)
  then show ?case
    by (auto split: sum.splits dest!: gather_block_finder_runs)
qed

lemma gather_blocks_planned:
  assumes "gather_blocks env ps cfg st bs = Inr st'"
    and "t \<in> set (planned st')"
  shows "t \<in> set (planned st) \<or> (recorded_at env ps cfg t \<and> bt_block t \<in> set (finder_runs st'))"
  using assms
proof (induction bs arbitrary: st)
  case Nil
  then show ?case by simp
next
  case (Cons b bs)
  from Cons.prems obtain st1 where st1: "gather_block env ps cfg st b = Inr st1"
    and rest: "gather_blocks env ps cfg st1 bs = Inr st'"
    by (auto split: sum.splits)
  from Cons.IH[OF rest Cons.prems(2)] show ?case
  proof
    assume "t \<in> set (planned st1)"
    with gather_block_planned[OF st1] gather_blocks_finder_runs[OF rest]
    show ?thesis by blast
  qed simp
qed


lemma order_blocks_in_graph:
  assumes "cfg_wf cfg"
  shows "\<forall>b \<in> set (order_blocks cfg). find_block cfg b \<noteq> None"
proof
  fix b
  assume "b \<in> set (order_blocks cfg)"
  then have "(entry_block cfg, b) \<in> (succ_rel cfg)\<^sup>*"
    by (rule order_blocks_sound)
  then have "b \<in> fst ` set (blocks cfg)"
  proof (cases rule: rtranclE)
    case base
    with assms show ?thesis by (simp add: cfg_wf_def)
  next
    case (step y)
    then have "b \<in> edge_targets cfg"
      using succ_targets_subset[of cfg y] by (auto simp: succ_rel_def)
    with assms show ?thesis by (auto simp: cfg_wf_def)
  qed
  then show "find_block cfg b \<noteq> None"
    by (simp add: find_block_def map_of_eq_None_iff)
qed

lemma plan_transforms_total:
  assumes "cfg_wf cfg"
  shows "\<exists>gs. plan_transforms env ps cfg = Inr gs"
  unfolding plan_transforms_def
  using gather_blocks_total[OF order_blocks_in_graph[OF assms]] by blast

lemma plan_transforms_recorded:
  assumes "plan_transforms env ps cfg = Inr gs" and "t \<in> set (planned gs)"
  shows "recorded_at env ps cfg t \<and> bt_block t \<in> set (finder_runs gs)"
  using gather_blocks_planned[OF assms(1)[unfolded plan_transforms_def] assms(2)]
  by simp

text \<open>
  Claim C2. A root branch is recorded for transformation only when the finder run from it
  reports success, all its keys are of the class kind, it saw no extra loads and it has a
  default case; when one of these fails, the branch is not transformed, and the gathering
  loop raises no error.
\<close>

theorem recorded_only_when_finder_supported:
  assumes "cfg_wf cfg"
  shows "\<exists>gs. plan_transforms env ps cfg = Inr gs \<and>
     (\<forall>t \<in> set (planned gs).
        find_determining_reg env cfg (bt_block t) = Some (determining_reg t) \<and>
        switch_equiv t = run_switch_equiv_finder env cfg (bt_block t) (determining_reg t) \<and>
        success (switch_equiv t) \<and>
        are_keys_uniform (switch_equiv t) KeyKind_CLASS \<and>
        extra_loads (switch_equiv t) = [] \<and>
        default_case (switch_equiv t) \<noteq> None) \<and>
     (\<forall>b reg. find_determining_reg env cfg b = Some reg \<and>
        \<not> finder_results_are_supported (run_switch_equiv_finder env cfg b reg) \<longrightarrow>
        b \<notin> bt_block ` set (planned gs))"
proof -
  from plan_transforms_total[OF assms] obtain gs where gs: "plan_transforms env ps cfg = Inr gs"
    by blast
  have rec: "recorded_at env ps cfg t" if "t \<in> set (planned gs)" for t
    using plan_transforms_recorded[OF gs that] by simp
  have "\<forall>t \<in> set (planned gs).
        find_determining_reg env cfg (bt_block t) = Some (determining_reg t) \<and>
        switch_equiv t = run_switch_equiv_finder env cfg (bt_block t) (determining_reg t) \<and>
        success (switch_equiv t) \<and>
        are_keys_uniform (switch_equiv t) KeyKind_CLASS \<and>
        extra_loads (switch_equiv t) = [] \<and>
        default_case (switch_equiv t) \<noteq> None"
  proof
    fix t
    assume "t \<in> set (planned gs)"
    from rec[OF this] show "find_determining_reg env cfg (bt_block t) = Some (determining_reg t) \<and>
        switch_equiv t = run_switch_equiv_finder env cfg (bt_block t) (determining_reg t) \<and>
        success (switch_equiv t) \<and>
        are_keys_uniform (switch_equiv t) KeyKind_CLASS \<and>
        extra_loads (switch_equiv t) = [] \<and>
        default_case (switch_equiv t) \<noteq> None"
      unfolding recorded_at_def finder_results_are_supported_def by blast
  qed
  moreover have "\<forall>b reg. find_determining_reg env cfg b = Some reg \<and>
        \<not> finder_results_are_supported (run_switch_equiv_finder env cfg b reg) \<longrightarrow>
        b \<notin> bt_block ` set (planned gs)"
  proof (intro allI impI notI)
    fix b reg
    assume h: "find_determining_reg env cfg b = Some reg \<and>
        \<not> finder_results_are_supported (run_switch_equiv_finder env cfg b reg)"
      and "b \<in> bt_block ` set (planned gs)"
    then obtain t where t: "t \<in> set (planned gs)" "bt_block t = b" by auto
    from rec[OF t(1)] have "find_determining_reg env cfg b = Some (determining_reg t)"
      and "switch_equiv t = run_switch_equiv_finder env cfg b (determining_reg t)"
      and "finder_results_are_supported (switch_equiv t)"
      unfolding recorded_at_def t(2) by blast+
    with h show False by simp
  qed
  ultimately show ?thesis using gs by blast
qed

lemma cfg_wf_if_chain: "cfg_wf if_chain_cfg"
  by (simp add: cfg_wf_def if_chain_cfg_def edge_targets_def)

lemma plan_if_chain_min5:
  "plan_transforms example_env ps_min5 if_chain_cfg =
     Inr \<lparr>blocks_considered = {0, 1, 2, 3, 4}, planned = [], finder_runs = [0]\<rparr>"
  by code_simp

lemma plan_if_chain_min2:
  "plan_transforms example_env ps_min2 if_chain_cfg =
     Inr \<lparr>blocks_considered = {0, 1, 2, 3, 4},
          planned = [\<lparr>bt_block = 0, bt_insn = (new_instruction OPCODE_IF_EQ)\<lparr>srcs := [0, 1]\<rparr>,
                      determining_reg = 0,
                      switch_equiv = run_switch_equiv_finder example_env if_chain_cfg 0 0\<rparr>],
          finder_runs = [0]\<rparr>"
  by code_simp


theorem recorded_only_when_finder_supported_witness:
  "cfg_wf if_chain_cfg \<and>
   (\<exists>gs. plan_transforms example_env ps_min2 if_chain_cfg = Inr gs \<and>
      map bt_block (planned gs) = [0] \<and>
      (\<forall>t \<in> set (planned gs).
        success (switch_equiv t) \<and>
        are_keys_uniform (switch_equiv t) KeyKind_CLASS \<and>
        extra_loads (switch_equiv t) = [] \<and>
        default_case (switch_equiv t) \<noteq> None) \<and>
      find_determining_reg example_env if_chain_cfg 1 = Some 0 \<and>
      \<not> finder_results_are_supported (run_switch_equiv_finder example_env if_chain_cfg 1 0) \<and>
      1 \<notin> bt_block ` set (planned gs))"
proof -
  from recorded_only_when_finder_supported[OF cfg_wf_if_chain, of example_env ps_min2]
  obtain gs where gs: "plan_transforms example_env ps_min2 if_chain_cfg = Inr gs"
    and sup: "\<forall>t \<in> set (planned gs).
        find_determining_reg example_env if_chain_cfg (bt_block t) = Some (determining_reg t) \<and>
        switch_equiv t = run_switch_equiv_finder example_env if_chain_cfg (bt_block t) (determining_reg t) \<and>
        success (switch_equiv t) \<and>
        are_keys_uniform (switch_equiv t) KeyKind_CLASS \<and>
        extra_loads (switch_equiv t) = [] \<and>
        default_case (switch_equiv t) \<noteq> None"
    and unsup: "\<forall>b reg. find_determining_reg example_env if_chain_cfg b = Some reg \<and>
        \<not> finder_results_are_supported (run_switch_equiv_finder example_env if_chain_cfg b reg) \<longrightarrow>
        b \<notin> bt_block ` set (planned gs)"
    by blast
  have r: "find_determining_reg example_env if_chain_cfg 1 = Some 0"
    by (simp add: example_env_def)
  have u: "\<not> finder_results_are_supported (run_switch_equiv_finder example_env if_chain_cfg 1 0)"
    by (simp add: example_env_def finder_results_are_supported_def)
  from unsup r u have nb: "1 \<notin> bt_block ` set (planned gs)" by blast
  from gs have mb: "map bt_block (planned gs) = [0]"
    by (auto simp: plan_if_chain_min2)
  from sup have sup': "\<forall>t \<in> set (planned gs).
        success (switch_equiv t) \<and>
        are_keys_uniform (switch_equiv t) KeyKind_CLASS \<and>
        extra_loads (switch_equiv t) = [] \<and>
        default_case (switch_equiv t) \<noteq> None"
    by blast
  show ?thesis
    by (intro conjI exI[of _ gs]) (fact cfg_wf_if_chain gs mb sup' r u nb)+
qed

text \<open>
  Claim C3, as amended. No transform is recorded for a chain whose number of relevant cases
  is below \<open>min_cases\<close> or above \<open>max_cases\<close>. The number is counted on the result of the
  finder, so the finder has run from the root of every recorded chain.
\<close>

theorem recorded_only_within_case_bounds:
  assumes "plan_transforms env ps cfg = Inr gs"
  shows "(\<forall>t \<in> set (planned gs).
            bt_block t \<in> set (finder_runs gs) \<and>
            switch_equiv t = run_switch_equiv_finder env cfg (bt_block t) (determining_reg t) \<and>
            (\<exists>n. relevant_case_count env ps (key_to_case (switch_equiv t)) 0 = Inr n \<and>
                 min_cases ps \<le> n \<and> n \<le> max_cases ps)) \<and>
         (\<forall>b reg n. find_determining_reg env cfg b = Some reg \<and>
            relevant_case_count env ps
              (key_to_case (run_switch_equiv_finder env cfg b reg)) 0 = Inr n \<and>
            (n < min_cases ps \<or> max_cases ps < n) \<longrightarrow>
            b \<notin> bt_block ` set (planned gs))"
proof -
  have rec: "recorded_at env ps cfg t \<and> bt_block t \<in> set (finder_runs gs)"
    if "t \<in> set (planned gs)" for t
    using plan_transforms_recorded[OF assms that] .
  have a: "\<forall>t \<in> set (planned gs).
            bt_block t \<in> set (finder_runs gs) \<and>
            switch_equiv t = run_switch_equiv_finder env cfg (bt_block t) (determining_reg t) \<and>
            (\<exists>n. relevant_case_count env ps (key_to_case (switch_equiv t)) 0 = Inr n \<and>
                 min_cases ps \<le> n \<and> n \<le> max_cases ps)"
  proof
    fix t
    assume "t \<in> set (planned gs)"
    from rec[OF this] show "bt_block t \<in> set (finder_runs gs) \<and>
            switch_equiv t = run_switch_equiv_finder env cfg (bt_block t) (determining_reg t) \<and>
            (\<exists>n. relevant_case_count env ps (key_to_case (switch_equiv t)) 0 = Inr n \<and>
                 min_cases ps \<le> n \<and> n \<le> max_cases ps)"
      by (auto simp: recorded_at_def split: sum.splits)
  qed
  have b: "\<forall>b reg n. find_determining_reg env cfg b = Some reg \<and>
            relevant_case_count env ps
              (key_to_case (run_switch_equiv_finder env cfg b reg)) 0 = Inr n \<and>
            (n < min_cases ps \<or> max_cases ps < n) \<longrightarrow>
            b \<notin> bt_block ` set (planned gs)"
  proof (intro allI impI notI)
    fix b reg n
    assume h: "find_determining_reg env cfg b = Some reg \<and>
            relevant_case_count env ps
              (key_to_case (run_switch_equiv_finder env cfg b reg)) 0 = Inr n \<and>
            (n < min_cases ps \<or> max_cases ps < n)"
      and "b \<in> bt_block ` set (planned gs)"
    then obtain t where t: "t \<in> set (planned gs)" "bt_block t = b" by auto
    from rec[OF t(1)] have "find_determining_reg env cfg b = Some (determining_reg t)"
      and "switch_equiv t = run_switch_equiv_finder env cfg b (determining_reg t)"
      and "case relevant_case_count env ps (key_to_case (switch_equiv t)) 0 of
             Inl e \<Rightarrow> False | Inr n \<Rightarrow> min_cases ps \<le> n \<and> n \<le> max_cases ps"
      unfolding recorded_at_def t(2) by blast+
    with h show False by auto
  qed
  from a b show ?thesis by blast
qed

lemma relevant_case_count_if_chain:
  "relevant_case_count example_env ps_min5
     (key_to_case (run_switch_equiv_finder example_env if_chain_cfg 0 0)) 0 = Inr 2"
  by code_simp

text \<open>
  With \<open>min_cases = 5\<close> the chain of the example, which has two relevant cases, gets no
  transform.
\<close>

theorem recorded_only_within_case_bounds_witness:
  "plan_transforms example_env ps_min5 if_chain_cfg =
     Inr \<lparr>blocks_considered = {0, 1, 2, 3, 4}, planned = [], finder_runs = [0]\<rparr> \<and>
   find_determining_reg example_env if_chain_cfg 0 = Some 0 \<and>
   relevant_case_count example_env ps_min5
     (key_to_case (run_switch_equiv_finder example_env if_chain_cfg 0 0)) 0 = Inr 2 \<and>
   2 < min_cases ps_min5 \<and>
   0 \<notin> bt_block ` set (planned
     \<lparr>blocks_considered = {0, 1, 2, 3, 4}, planned = [], finder_runs = [0]\<rparr>)"
proof -
  have r: "find_determining_reg example_env if_chain_cfg 0 = Some 0"
    by (simp add: example_env_def)
  have m: "(2::nat) < min_cases ps_min5"
    by (simp add: ps_min5_def)
  from recorded_only_within_case_bounds[OF plan_if_chain_min5] r relevant_case_count_if_chain m
  have "0 \<notin> bt_block ` set (planned
     \<lparr>blocks_considered = {0, 1, 2, 3, 4}, planned = [], finder_runs = [0]\<rparr>)"
    by blast
  with plan_if_chain_min5 r relevant_case_count_if_chain m show ?thesis by blast
qed

text \<open>
  The claim as first stated says that such a chain is filtered before the finder runs. In
  the example the method passes \<open>should_consider_method\<close> with \<open>min_cases = 5\<close>, since its
  graph has five const-class instructions, and the finder is run from block 0 on a chain
  of two relevant cases.
\<close>

theorem chain_below_min_cases_is_attempted:
  "should_consider_method ps_min5 if_chain_view \<and>
   relevant_case_count example_env ps_min5
     (key_to_case (run_switch_equiv_finder example_env if_chain_cfg 0 0)) 0 = Inr 2 \<and>
   2 < min_cases ps_min5 \<and>
   plan_transforms example_env ps_min5 if_chain_cfg =
     Inr \<lparr>blocks_considered = {0, 1, 2, 3, 4}, planned = [], finder_runs = [0]\<rparr>"
  using should_consider_if_chain relevant_case_count_if_chain plan_if_chain_min5
  by (simp add: ps_min5_def)


section \<open>The keys of the new switch\<close>

text \<open>
  The key that the loop over \<^verbatim>\<open>ordered_types\<close> gives to the type at position \<open>i\<close>:
  the 16-bit counter started at \<open>STRING_TREE_NO_ENTRY + 1\<close>, after \<open>i\<close> increments, widened
  to 32 bits.
\<close>

lemma scast_16_32_inj: "(scast (a :: 16 word) :: 32 word) = scast b \<Longrightarrow> a = b"
proof -
  assume "(scast a :: 32 word) = scast b"
  then have "sint (scast a :: 32 word) = sint (scast b :: 32 word)" by simp
  then have "sint a = sint b"
    by (simp add: sint_up_scast is_up)
  then show "a = b" by (rule signed_word_eqI)
qed

lemma ordinal_keys_Suc:
  "map (\<lambda>i. (scast (c + of_nat i :: 16 word) :: 32 word)) [0..<Suc n] =
   scast c # map (\<lambda>i. scast (c + 1 + of_nat i)) [0..<n]"
proof -
  have "[0..<Suc n] = 0 # map Suc [0..<n]"
    by (simp add: upt_conv_Cons map_Suc_upt del: upt_Suc)
  then show ?thesis
    by (simp add: comp_def add.assoc del: upt_Suc)
qed

lemma assign_ordinals_keys:
  assumes "\<forall>ty \<in> set ts. map_of k2c (TypeKey ty) \<noteq> None"
  shows "\<exists>items' edges'. assign_ordinals env k2c ts c items edges = Inr (items', edges') \<and>
           map fst edges' = map fst edges @ map (\<lambda>i. scast (c + of_nat i)) [0..<length ts]"
  using assms
proof (induction ts arbitrary: c items edges)
  case Nil
  then show ?case by simp
next
  case (Cons ty ts)
  then obtain blk where blk: "map_of k2c (TypeKey ty) = Some blk" by auto
  from Cons.prems have rest: "\<forall>ty \<in> set ts. map_of k2c (TypeKey ty) \<noteq> None" by simp
  from Cons.IH[OF rest, of "c + 1" "map_emplace items (internal_to_external env ty) c"
      "edges @ [(scast c, blk)]"]
  obtain items' edges' where
    r: "assign_ordinals env k2c ts (c + 1) (map_emplace items (internal_to_external env ty) c)
          (edges @ [(scast c, blk)]) = Inr (items', edges')"
    and k: "map fst edges' = map fst (edges @ [(scast c, blk)]) @
          map (\<lambda>i. scast (c + 1 + of_nat i)) [0..<length ts]"
    by blast
  have "assign_ordinals env k2c (ty # ts) c items edges = Inr (items', edges')"
    using blk r by (simp add: Let_def)
  moreover have "map fst edges' = map fst edges @
      map (\<lambda>i. scast (c + of_nat i)) [0..<length (ty # ts)]"
    using k ordinal_keys_Suc[of c "length ts"] by simp
  ultimately show ?case by blast
qed

lemma collect_ordered_types_result:
  assumes "list_all (\<lambda>(key, leaf). is_default_case key \<or> kind_of_key key = Some KeyKind_CLASS) k2c"
  shows "\<exists>ot' d'. collect_ordered_types k2c ot d = Inr (ot', d') \<and>
           set ot' = set ot \<union> {ty. TypeKey ty \<in> fst ` set k2c} \<and>
           (distinct ot \<longrightarrow> distinct ot') \<and>
           (d \<noteq> None \<or> DefaultCase \<in> fst ` set k2c \<longrightarrow> d' \<noteq> None)"
  using assms
proof (induction k2c arbitrary: ot d)
  case Nil
  then show ?case by simp
next
  case (Cons kv k2c)
  obtain key blk where kv: "kv = (key, blk)" by (cases kv)
  from Cons.prems have rest:
    "list_all (\<lambda>(key, leaf). is_default_case key \<or> kind_of_key key = Some KeyKind_CLASS) k2c"
    by simp
  show ?case
  proof (cases key)
    case DefaultCase
    from Cons.IH[OF rest, of ot "Some blk"] show ?thesis
      using kv DefaultCase by (auto simp: is_default_case_def)
  next
    case (IntKey x)
    with Cons.prems kv show ?thesis
      by (simp add: is_default_case_def kind_of_key_def)
  next
    case (TypeKey ty)
    from Cons.IH[OF rest, of "insort_insert ty ot" d] show ?thesis
      using kv TypeKey
      by (auto simp: is_default_case_def get_dex_type_def set_insort_insert
          distinct_insort_insert)
  qed
qed


definition ordinal_key :: "nat \<Rightarrow> 32 word" where
  "ordinal_key i = scast (STRING_TREE_NO_ENTRY + 1 + of_nat i :: 16 word)"

lemma ordinal_key_eq_iff:
  assumes "i < 65536" and "j < 65536"
  shows "ordinal_key i = ordinal_key j \<longleftrightarrow> i = j"
proof
  assume "ordinal_key i = ordinal_key j"
  then have "(of_nat i :: 16 word) = of_nat j"
    by (auto simp: ordinal_key_def dest!: scast_16_32_inj)
  then have "take_bit 16 i = take_bit 16 j"
    by (simp add: word_of_nat_eq_iff)
  with assms show "i = j"
    by (simp add: take_bit_nat_eq_self)
qed simp

lemma ordinal_key_zero_iff:
  assumes "i < 65536"
  shows "ordinal_key i = scast STRING_TREE_NO_ENTRY \<longleftrightarrow> i = 65535"
proof
  assume "ordinal_key i = scast STRING_TREE_NO_ENTRY"
  then have "(scast (1 + of_nat i :: 16 word) :: 32 word) = scast (0 :: 16 word)"
    by (simp add: ordinal_key_def STRING_TREE_NO_ENTRY_def)
  then have "(1 + of_nat i :: 16 word) = 0"
    by (rule scast_16_32_inj)
  then have "(of_nat (Suc i) :: 16 word) = of_nat 0"
    by simp
  then have "take_bit LENGTH(16) (Suc i) = take_bit LENGTH(16) (0::nat)"
    by (simp only: word_of_nat_eq_iff)
  then have m: "Suc i mod 65536 = 0"
    by (simp add: take_bit_eq_mod)
  show "i = 65535"
  proof (cases "Suc i < 65536")
    case True
    then have "Suc i mod 65536 = Suc i" by (rule mod_less)
    with m show ?thesis by simp
  next
    case False
    with assms show ?thesis by simp
  qed
next
  assume "i = 65535"
  then show "ordinal_key i = scast STRING_TREE_NO_ENTRY"
    by (simp add: ordinal_key_def STRING_TREE_NO_ENTRY_def)
qed

lemma ordinal_key_wrap: "ordinal_key 65536 = ordinal_key 0"
  by (simp add: ordinal_key_def STRING_TREE_NO_ENTRY_def)

lemma ordinal_keys_distinct:
  assumes "n \<le> 65536"
  shows "distinct (map ordinal_key [0..<n])"
proof -
  have "inj_on ordinal_key (set [0..<n])"
    using assms by (auto simp: inj_on_def ordinal_key_eq_iff)
  then show ?thesis by (simp add: distinct_map)
qed

lemma ordinal_keys_no_sentinel:
  assumes "n \<le> 65535"
  shows "scast STRING_TREE_NO_ENTRY \<notin> set (map ordinal_key [0..<n])"
proof
  assume "scast STRING_TREE_NO_ENTRY \<in> set (map ordinal_key [0..<n])"
  then obtain i where "i < n" "ordinal_key i = scast STRING_TREE_NO_ENTRY"
    by auto
  with assms show False by (simp add: ordinal_key_zero_iff)
qed

lemma ordinal_keys_sentinel:
  assumes "65535 < n"
  shows "scast STRING_TREE_NO_ENTRY \<in> set (map ordinal_key [0..<n])"
proof -
  have "ordinal_key 65535 = scast STRING_TREE_NO_ENTRY"
    by (simp add: ordinal_key_zero_iff)
  moreover have "(65535::nat) \<in> set [0..<n]" using assms by simp
  ultimately show ?thesis by (metis image_eqI set_map)
qed

lemma ordinal_keys_not_distinct:
  assumes "65536 < n"
  shows "\<not> distinct (map ordinal_key [0..<n])"
proof
  assume "distinct (map ordinal_key [0..<n])"
  then have "inj_on ordinal_key (set [0..<n])"
    by (simp add: distinct_map)
  moreover have "(0::nat) \<in> set [0..<n]" "(65536::nat) \<in> set [0..<n]"
    using assms by simp_all
  ultimately have "(65536::nat) = 0"
    using ordinal_key_wrap by (metis inj_on_def)
  then show False by simp
qed

text \<open>The number of class keys of a finder result.\<close>

definition class_keys :: "switch_equiv_finder \<Rightarrow> dex_type set" where
  "class_keys finder = {ty. TypeKey ty \<in> fst ` set (key_to_case finder)}"

lemma finite_class_keys: "finite (class_keys finder)"
proof -
  have "class_keys finder \<subseteq> (\<lambda>k. case k of TypeKey ty \<Rightarrow> ty | _ \<Rightarrow> []) ` fst ` set (key_to_case finder)"
    by (force simp: class_keys_def)
  then show ?thesis by (rule finite_subset) simp
qed

lemma switch_cases_of_keys:
  assumes "finder_results_are_supported (switch_equiv t)"
  shows "\<exists>items edges d. switch_cases_of env t = Inr (items, edges, Some d) \<and>
           map fst edges = map ordinal_key [0..<card (class_keys (switch_equiv t))]"
proof -
  let ?k2c = "key_to_case (switch_equiv t)"
  from assms have uni: "list_all (\<lambda>(key, leaf). is_default_case key \<or> kind_of_key key = Some KeyKind_CLASS) ?k2c"
    and dflt: "DefaultCase \<in> fst ` set ?k2c"
    by (auto simp: finder_results_are_supported_def are_keys_uniform_def default_case_def
        map_of_eq_None_iff)
  from collect_ordered_types_result[OF uni, of "[]" None] dflt
  obtain ot d where c: "collect_ordered_types ?k2c [] None = Inr (ot, Some d)"
    and s: "set ot = class_keys (switch_equiv t)" and dist: "distinct ot"
    by (auto simp: class_keys_def)
  have "\<forall>ty \<in> set ot. map_of ?k2c (TypeKey ty) \<noteq> None"
    using s by (auto simp: class_keys_def map_of_eq_None_iff)
  from assign_ordinals_keys[OF this, of env "STRING_TREE_NO_ENTRY + 1" Map.empty "[]"]
  obtain items edges where a: "assign_ordinals env ?k2c ot (STRING_TREE_NO_ENTRY + 1) Map.empty [] = Inr (items, edges)"
    and k: "map fst edges = map (\<lambda>i. scast (STRING_TREE_NO_ENTRY + 1 + of_nat i)) [0..<length ot]"
    by auto
  have "length ot = card (class_keys (switch_equiv t))"
    using s dist by (metis distinct_card)
  with k have "map fst edges = map ordinal_key [0..<card (class_keys (switch_equiv t))]"
    by (simp add: ordinal_key_def)
  with c a show ?thesis by (simp add: switch_cases_of_def)
qed

text \<open>
  Below the wrap-around of the 16-bit counter the keys handed to \<^verbatim>\<open>create_branch\<close> are
  pairwise distinct and none is the sentinel.
\<close>

lemma switch_keys_distinct_below_wrap:
  assumes "finder_results_are_supported (switch_equiv t)"
    and "card (class_keys (switch_equiv t)) \<le> 65535"
  shows "\<exists>items edges d. switch_cases_of env t = Inr (items, edges, Some d) \<and>
           distinct (map fst edges) \<and> scast STRING_TREE_NO_ENTRY \<notin> fst ` set edges"
proof -
  from switch_cases_of_keys[OF assms(1), of env] obtain items edges d where
    r: "switch_cases_of env t = Inr (items, edges, Some d)"
    and k: "map fst edges = map ordinal_key [0..<card (class_keys (switch_equiv t))]"
    by blast
  have "distinct (map fst edges)"
    unfolding k using assms(2) by (intro ordinal_keys_distinct) simp
  moreover have "scast STRING_TREE_NO_ENTRY \<notin> set (map fst edges)"
    unfolding k using assms(2) by (rule ordinal_keys_no_sentinel)
  ultimately show ?thesis using r by auto
qed


text \<open>
  A chain with \<open>n\<close> class keys and a default case. Only the first five classes are
  classes of the program; the others are not known to \<^verbatim>\<open>type_class\<close>.
\<close>

definition wide_type :: "nat \<Rightarrow> dex_type" where
  "wide_type i = ''LT'' @ replicate i (CHR ''a'') @ '';''"

definition wide_chain :: "nat \<Rightarrow> switch_equiv_finder" where
  "wide_chain n = \<lparr>success = True,
     key_to_case = (DefaultCase, 0) # map (\<lambda>i. (TypeKey (wide_type i), Suc i)) [0..<n],
     extra_loads = [], visited_blocks = [0..<Suc n]\<rparr>"

definition wide_env :: analysis_env where
  "wide_env = example_env\<lparr>type_class_of :=
     (\<lambda>ty. if ty \<in> set (map wide_type [0..<5])
           then Some \<lparr>class_type = ty, is_external = False\<rparr> else None)\<rparr>"

text \<open>The pass state of the default configuration.\<close>

definition ps_default :: pass_state where
  "ps_default = \<lparr>lookup_method = lookup_ref,
     consider_external_classes = m_consider_external_classes bind_config,
     min_cases = m_min_cases bind_config, max_cases = m_max_cases bind_config\<rparr>"

definition wide_transform :: "nat \<Rightarrow> branch_transform" where
  "wide_transform n = \<lparr>bt_block = 0, bt_insn = (new_instruction OPCODE_IF_EQ)\<lparr>srcs := [0, 1]\<rparr>,
     determining_reg = 0, switch_equiv = wide_chain n\<rparr>"

lemma wide_type_eq_iff: "wide_type i = wide_type j \<longleftrightarrow> i = j"
proof
  assume "wide_type i = wide_type j"
  then have "length (wide_type i) = length (wide_type j)" by simp
  then show "i = j" by (simp add: wide_type_def)
qed simp

lemma class_keys_wide_chain: "class_keys (wide_chain n) = wide_type ` {0..<n}"
  by (auto simp: class_keys_def wide_chain_def image_iff)

lemma card_class_keys_wide_chain: "card (class_keys (wide_chain n)) = n"
proof -
  have "inj_on wide_type {0..<n}"
    by (simp add: inj_on_def wide_type_eq_iff)
  then show ?thesis
    by (simp add: class_keys_wide_chain card_image)
qed

lemma wide_chain_supported: "finder_results_are_supported (wide_chain n)"
  by (simp add: finder_results_are_supported_def wide_chain_def are_keys_uniform_def
      default_case_def is_default_case_def kind_of_key_def list_all_iff)

lemma relevant_case_count_class_keys:
  "relevant_case_count env ps (map (\<lambda>i. (TypeKey (g i), h i)) xs) m =
     Inr (m + length (filter (\<lambda>i. consider_external_classes ps \<or>
                 (case type_class_of env (g i) of None \<Rightarrow> False | Some c \<Rightarrow> \<not> is_external c)) xs))"
  by (induction xs arbitrary: m) (simp_all add: is_default_case_def get_dex_type_def Let_def)

lemma length_filter_less_upt: "length (filter (\<lambda>i. i < k) [0..<n]) = min k n"
  by (induction n) auto

lemma relevant_case_count_wide_chain:
  "relevant_case_count wide_env ps_default (key_to_case (wide_chain n)) 0 = Inr (min 5 n)"
proof -
  have rel: "(consider_external_classes ps_default \<or>
        (case type_class_of wide_env (wide_type i) of None \<Rightarrow> False | Some c \<Rightarrow> \<not> is_external c))
        \<longleftrightarrow> i < 5" for i
    by (auto simp: ps_default_def bind_config_def wide_env_def wide_type_eq_iff)
  show ?thesis
    by (simp add: wide_chain_def is_default_case_def relevant_case_count_class_keys rel
        length_filter_less_upt del: upt_Suc)
qed

text \<open>
  Claim C8 says that the keys handed to \<^verbatim>\<open>create_branch\<close> are pairwise distinct and that
  no type gets the sentinel 0. The counter is an \<^verbatim>\<open>int16_t\<close>: on a chain of 65537 class
  keys, which the default configuration accepts when at most 2000 of them are classes of
  the program, the 65536th type gets the key 0 and the 65537th the key 1 again, and
  \<^verbatim>\<open>create_branch\<close> is called with a list that has a key twice.
\<close>

theorem ordinals_wrap_on_wide_chain:
  "finder_results_are_supported (wide_chain 65537) \<and>
   relevant_case_count wide_env ps_default (key_to_case (wide_chain 65537)) 0 = Inr 5 \<and>
   min_cases ps_default = 5 \<and> max_cases ps_default = 2000 \<and>
   (\<exists>items edges d.
      switch_cases_of wide_env (wide_transform 65537) = Inr (items, edges, d) \<and>
      \<not> distinct (map fst edges) \<and>
      scast STRING_TREE_NO_ENTRY \<in> fst ` set edges \<and>
      create_branch_switch if_chain_cfg 0 (new_instruction OPCODE_SWITCH) None edges =
        Inl AssertionFailed)"
proof -
  have sup: "finder_results_are_supported (switch_equiv (wide_transform 65537))"
    by (simp add: wide_transform_def wide_chain_supported)
  from switch_cases_of_keys[OF sup, of wide_env] obtain items edges d where
    r: "switch_cases_of wide_env (wide_transform 65537) = Inr (items, edges, Some d)"
    and k: "map fst edges = map ordinal_key [0..<65537]"
    by (auto simp: wide_transform_def card_class_keys_wide_chain)
  have nd: "\<not> distinct (map fst edges)"
    unfolding k by (rule ordinal_keys_not_distinct) simp
  have "scast STRING_TREE_NO_ENTRY \<in> set (map fst edges)"
    unfolding k by (rule ordinal_keys_sentinel) simp
  then have z: "scast STRING_TREE_NO_ENTRY \<in> fst ` set edges" by simp
  have cb: "create_branch_switch if_chain_cfg 0 (new_instruction OPCODE_SWITCH) None edges =
        Inl AssertionFailed"
    using nd by (simp add: create_branch_switch_def)
  have c: "relevant_case_count wide_env ps_default (key_to_case (wide_chain 65537)) 0 = Inr 5"
    by (simp add: relevant_case_count_wide_chain)
  have b: "min_cases ps_default = 5 \<and> max_cases ps_default = 2000"
    by (simp add: ps_default_def bind_config_def)
  from r nd z cb c b wide_chain_supported[of 65537] show ?thesis by blast
qed


section \<open>Pruning before the swap\<close>

lemma map_of_filter_keys:
  "map_of (filter (\<lambda>(i, v). Q i) xs) k = (if Q k then map_of xs k else None)"
  by (induction xs) auto

lemma succ_targets_remove_unreachable:
  assumes "x \<in> set (order_blocks cfg)"
  shows "succ_targets (remove_unreachable_blocks cfg) x = succ_targets cfg x"
  using assms
  by (simp add: succ_targets_def find_block_def remove_unreachable_blocks_def map_of_filter_keys)

lemma reachable_remove_unreachable:
  assumes "(entry_block cfg, b) \<in> (succ_rel cfg)\<^sup>*"
  shows "(entry_block cfg, b) \<in> (succ_rel (remove_unreachable_blocks cfg))\<^sup>*"
  using assms
proof (induction rule: rtrancl_induct)
  case base
  then show ?case by simp
next
  case (step y z)
  from step.hyps(1) have "y \<in> set (order_blocks cfg)"
    by (rule order_blocks_complete)
  then have "succ_targets (remove_unreachable_blocks cfg) y = succ_targets cfg y"
    by (rule succ_targets_remove_unreachable)
  with step.hyps(2) have "(y, z) \<in> succ_rel (remove_unreachable_blocks cfg)"
    by (simp add: succ_rel_def)
  with step.IH show ?case by (rule rtrancl_into_rtrancl)
qed

lemma entry_block_remove_unreachable [simp]:
  "entry_block (remove_unreachable_blocks cfg) = entry_block cfg"
  by (simp add: remove_unreachable_blocks_def)

lemma remove_unreachable_blocks_all_reachable:
  assumes "b \<in> fst ` set (blocks (remove_unreachable_blocks cfg))"
  shows "(entry_block (remove_unreachable_blocks cfg), b) \<in> (succ_rel (remove_unreachable_blocks cfg))\<^sup>*"
proof -
  from assms have "b \<in> set (order_blocks cfg)"
    by (auto simp: remove_unreachable_blocks_def)
  then have "(entry_block cfg, b) \<in> (succ_rel cfg)\<^sup>*"
    by (rule order_blocks_sound)
  then show ?thesis
    using reachable_remove_unreachable by simp
qed

text \<open>The const-class count of a graph, block by block.\<close>

definition block_const_classes :: "block \<Rightarrow> nat" where
  "block_const_classes blk = length (filter (\<lambda>insn. opcode insn = OPCODE_CONST_CLASS) (insns blk))"

lemma num_const_class_opcodes_sum:
  "num_const_class_opcodes cfg = sum_list (map (\<lambda>(i, blk). block_const_classes blk) (blocks cfg))"
proof -
  have "length (filter P (concat (map (\<lambda>(i, blk). insns blk) bs))) =
        sum_list (map (\<lambda>(i, blk). length (filter P (insns blk))) bs)" for P and bs :: "(block_id \<times> block) list"
    by (induction bs) auto
  then show ?thesis
    by (simp add: num_const_class_opcodes_def cfg_instructions_def block_const_classes_def)
qed

lemma num_const_class_remove_unreachable:
  "num_const_class_opcodes (remove_unreachable_blocks cfg) \<le> num_const_class_opcodes cfg"
proof -
  have "sum_list (map f (filter P bs)) \<le> sum_list (map f bs)" for f :: "block_id \<times> block \<Rightarrow> nat" and P bs
    by (induction bs) auto
  then show ?thesis
    by (simp add: num_const_class_opcodes_sum remove_unreachable_blocks_def)
qed

lemma num_const_class_update_block:
  assumes "\<And>blk. block_const_classes (f blk) \<le> block_const_classes blk"
  shows "num_const_class_opcodes (update_block cfg b f) \<le> num_const_class_opcodes cfg"
proof -
  have "sum_list (map (\<lambda>(i, blk). block_const_classes blk)
          (map (\<lambda>(i, blk). if i = b then (i, f blk) else (i, blk)) bs))
        \<le> sum_list (map (\<lambda>(i, blk). block_const_classes blk) bs)" for bs
    using assms by (induction bs) (auto simp: add_mono)
  then show ?thesis
    by (simp add: num_const_class_opcodes_sum update_block_def)
qed

lemma num_const_class_allocate_temp [simp]:
  "num_const_class_opcodes (snd (allocate_temp cfg)) = num_const_class_opcodes cfg"
  by (simp add: allocate_temp_def num_const_class_opcodes_def cfg_instructions_def)

lemma filter_take_drop_le:
  "length (filter P (take i xs)) + length (filter P (drop (Suc i) xs)) \<le> length (filter P xs)"
proof -
  have "filter P xs = filter P (take i xs) @ filter P (drop i xs)"
    by (metis append_take_drop_id filter_append)
  then have a: "length (filter P xs) = length (filter P (take i xs)) + length (filter P (drop i xs))"
    by simp
  have "length (filter P (drop (Suc i) xs)) \<le> length (filter P (drop i xs))"
  proof (cases "i < length xs")
    case True
    then have "drop i xs = xs ! i # drop (Suc i) xs"
      by (rule Cons_nth_drop_Suc[symmetric])
    then show ?thesis by simp
  next
    case False
    then show ?thesis by simp
  qed
  with a show ?thesis by simp
qed

lemma apply_branch_transform_const_classes:
  assumes "apply_branch_transform env ps method_class cls cfg transform_count t = Inr (cfg', getter, sz)"
  shows "num_const_class_opcodes cfg' \<le> num_const_class_opcodes cfg"
proof -
  have rep: "replace_insns c b it rs = Inr c' \<Longrightarrow> \<forall>r \<in> set rs. opcode r \<noteq> OPCODE_CONST_CLASS \<Longrightarrow>
      num_const_class_opcodes c' \<le> num_const_class_opcodes c" for c b it rs c'
    by (auto simp: replace_insns_def block_const_classes_def filter_take_drop_le
        split: option.splits intro!: num_const_class_update_block)
  have cb: "create_branch_switch c b i d es = Inr c' \<Longrightarrow> opcode i \<noteq> OPCODE_CONST_CLASS \<Longrightarrow>
      num_const_class_opcodes c' \<le> num_const_class_opcodes c" for c b i d es c'
    by (auto simp: create_branch_switch_def block_const_classes_def
        split: if_splits intro!: num_const_class_update_block)
  have rt: "retarget_gotos c b d = Inr c' \<Longrightarrow>
      num_const_class_opcodes c' \<le> num_const_class_opcodes c" for c b d c'
    by (auto simp: retarget_gotos_def block_const_classes_def
        split: if_splits option.splits intro!: num_const_class_update_block)
  from assms show ?thesis
    apply (simp add: apply_branch_transform_def Let_def split: sum.splits prod.splits option.splits)
    apply (elim conjE exE)
    apply (drule rep)
     apply (simp add: new_instruction_def)
    apply (drule cb)
     apply (simp add: new_instruction_def)
    apply (drule rt)
    apply (simp add: allocate_temp_def num_const_class_opcodes_def cfg_instructions_def)
    done
qed


lemma apply_branch_transforms_const_classes:
  assumes "apply_branch_transforms env ps method_class cls cfg transform_count getters sz ts =
             Inr (cfg', getters', sz')"
  shows "num_const_class_opcodes cfg' \<le> num_const_class_opcodes cfg"
  using assms
proof (induction ts arbitrary: cfg transform_count getters sz)
  case Nil
  then show ?case by simp
next
  case (Cons t ts)
  from Cons.prems obtain cfg1 getter sz1 where
    one: "apply_branch_transform env ps method_class cls cfg transform_count t = Inr (cfg1, getter, sz1)"
    and rest: "apply_branch_transforms env ps method_class cls cfg1 (transform_count + 1)
                 (getters @ [getter]) sz1 ts = Inr (cfg', getters', sz')"
    by (auto split: sum.splits)
  from Cons.IH[OF rest] apply_branch_transform_const_classes[OF one]
  show ?case by simp
qed

text \<open>The world after \<^verbatim>\<open>apply_transform\<close>, spelled out.\<close>

definition installed ::
  "analysis_env \<Rightarrow> world \<Rightarrow> method_transform \<Rightarrow> dex_method \<Rightarrow> control_flow_graph
   \<Rightarrow> created_method list \<Rightarrow> world" where
  "installed env w mt dm cfg getters =
     set_code
       (w\<lparr>ircode_heap := (ircode_heap w)(code_copy mt \<mapsto> cfg),
          added_methods := added_methods w @
            (case type_class_of env (fst (mt_method mt)) of
               None \<Rightarrow> [] | Some c \<Rightarrow> map (Pair c) getters)\<rparr>)
       (mt_method mt) dm (code_copy mt)"

lemma apply_transform_Inr:
  assumes "apply_transform env ps mt transform_count w = Inr (result, w')"
  shows "\<exists>cfg0 cfg1 getters sz dm.
           ircode_heap w (code_copy mt) = Some cfg0 \<and>
           apply_branch_transforms env ps (fst (mt_method mt))
             (type_class_of env (fst (mt_method mt))) cfg0 transform_count [] 0 (transforms mt) =
             Inr (cfg1, getters, sz) \<and>
           dex_methods w (mt_method mt) = Some dm \<and>
           result = \<lparr>methods_transformed = 1,
                     const_class_instructions_removed =
                       num_const_class_opcodes cfg0 -
                       num_const_class_opcodes (remove_unreachable_blocks cfg1),
                     string_tree_size = sz\<rparr> \<and>
           w' = installed env w mt dm (remove_unreachable_blocks cfg1) getters"
  using assms
  by (auto simp: apply_transform_def installed_def Let_def split: option.splits sum.splits)

lemma live_code_installed:
  assumes "code_ptr dm \<noteq> Some (code_copy mt)"
  shows "live_code (installed env w mt dm cfg getters) (mt_method mt) = Some cfg"
  using assms
  by (auto simp: installed_def set_code_def live_code_def get_code_def split: option.splits)

text \<open>
  Claim C6. \<open>apply_transform\<close> applies all the planned branch transforms of the method to
  the copy, then removes the unreachable blocks, once, and only then computes the metric
  from the pruned graph and makes the pruned copy the code of the method. So every block of
  the installed code can be reached from its entry block. The copy must not already be the
  code of the method.
\<close>

theorem unreachable_blocks_removed_before_install:
  assumes "apply_transform env ps mt transform_count w = Inr (result, w')"
    and "\<forall>dm. dex_methods w (mt_method mt) = Some dm \<longrightarrow> code_ptr dm \<noteq> Some (code_copy mt)"
  shows "\<exists>cfg0 cfg1 getters sz.
           ircode_heap w (code_copy mt) = Some cfg0 \<and>
           apply_branch_transforms env ps (fst (mt_method mt))
             (type_class_of env (fst (mt_method mt))) cfg0 transform_count [] 0 (transforms mt) =
             Inr (cfg1, getters, sz) \<and>
           live_code w' (mt_method mt) = Some (remove_unreachable_blocks cfg1) \<and>
           (\<forall>b \<in> fst ` set (blocks (remove_unreachable_blocks cfg1)).
              (entry_block (remove_unreachable_blocks cfg1), b)
                \<in> (succ_rel (remove_unreachable_blocks cfg1))\<^sup>*) \<and>
           const_class_instructions_removed result +
             num_const_class_opcodes (remove_unreachable_blocks cfg1) =
             num_const_class_opcodes cfg0"
proof -
  from apply_transform_Inr[OF assms(1)] obtain cfg0 cfg1 getters sz dm where
    h: "ircode_heap w (code_copy mt) = Some cfg0"
    and a: "apply_branch_transforms env ps (fst (mt_method mt))
             (type_class_of env (fst (mt_method mt))) cfg0 transform_count [] 0 (transforms mt) =
             Inr (cfg1, getters, sz)"
    and dm: "dex_methods w (mt_method mt) = Some dm"
    and r: "result = \<lparr>methods_transformed = 1,
                     const_class_instructions_removed =
                       num_const_class_opcodes cfg0 -
                       num_const_class_opcodes (remove_unreachable_blocks cfg1),
                     string_tree_size = sz\<rparr>"
    and w': "w' = installed env w mt dm (remove_unreachable_blocks cfg1) getters"
    by blast
  from assms(2) dm have "code_ptr dm \<noteq> Some (code_copy mt)" by simp
  then have live: "live_code w' (mt_method mt) = Some (remove_unreachable_blocks cfg1)"
    unfolding w' by (rule live_code_installed)
  have le: "num_const_class_opcodes (remove_unreachable_blocks cfg1) \<le> num_const_class_opcodes cfg0"
    using num_const_class_remove_unreachable[of cfg1] apply_branch_transforms_const_classes[OF a]
    by simp
  have cnt: "const_class_instructions_removed result +
             num_const_class_opcodes (remove_unreachable_blocks cfg1) =
             num_const_class_opcodes cfg0"
    using le by (simp add: r)
  have reach: "\<forall>b \<in> fst ` set (blocks (remove_unreachable_blocks cfg1)).
              (entry_block (remove_unreachable_blocks cfg1), b)
                \<in> (succ_rel (remove_unreachable_blocks cfg1))\<^sup>*"
    using remove_unreachable_blocks_all_reachable by blast
  from h a live reach cnt show ?thesis by blast
qed

lemma cm_ref_getter:
  "cm_ref (create_string_getter_method c n s) =
     (c, ''__RDX_GET_STR_'' @ to_string n, ''(I)Ljava/lang/String;'')"
  by (simp add: create_string_getter_method_def Let_def split_def)

lemma switch_cases_of_if_chain:
  "switch_cases_of example_env if_chain_transform =
     Inr ([''A'' \<mapsto> 1, ''B'' \<mapsto> 2], [(1, 3), (2, 4)], Some 2)"
  by (simp add: switch_cases_of_def if_chain_transform_def example_env_def is_default_case_def
      get_dex_type_def insort_insert_key_def STRING_TREE_NO_ENTRY_def map_emplace_def)

lemma apply_branch_transform_if_chain:
  "apply_branch_transform example_env ps_min2 ''LFoo;'' (Some foo_class) if_chain_cfg n
     if_chain_transform =
   Inr (edited_if_chain_cfg n, create_string_getter_method ''LFoo;'' n ''A;B;'', 4)"
  apply (simp add: apply_branch_transform_def switch_cases_of_if_chain Let_def allocate_temp_def
      cm_ref_getter cong: let_weak_cong)
  apply (simp add: example_env_def if_chain_transform_def find_insn_def find_block_def
      if_chain_cfg_def const_class_then_if_def replace_insns_def update_block_def
      create_branch_switch_def retarget_gotos_def edited_if_chain_cfg_def
      STRING_TREE_NO_ENTRY_def ps_min2_def)
  done

lemma order_blocks_edited_if_chain: "order_blocks (edited_if_chain_cfg n) = [0, 4, 3, 2]"
  by (simp add: order_blocks_def edited_if_chain_cfg_def succ_targets_def find_block_def)

lemma remove_unreachable_edited_if_chain:
  "remove_unreachable_blocks (edited_if_chain_cfg n) = pruned_if_chain_cfg n"
proof -
  have "(\<lambda>(i, blk). i \<in> set [0, 4, 3, 2]) = (\<lambda>(i :: nat, blk :: block). i \<in> {0, 2, 3, 4})"
    by auto
  then show ?thesis
    by (simp only: remove_unreachable_blocks_def pruned_if_chain_cfg_def
        order_blocks_edited_if_chain)
qed

lemma num_const_class_if_chain: "num_const_class_opcodes if_chain_cfg = 5"
  by (simp add: num_const_class_opcodes_def cfg_instructions_def if_chain_cfg_def
      const_class_then_if_def const_class_then_return_def new_instruction_def)

lemma num_const_class_pruned_if_chain: "num_const_class_opcodes (pruned_if_chain_cfg n) = 4"
  by (simp add: num_const_class_opcodes_def cfg_instructions_def pruned_if_chain_cfg_def
      edited_if_chain_cfg_def const_class_then_if_def const_class_then_return_def
      new_instruction_def)

lemma type_class_of_foo: "type_class_of example_env ''LFoo;'' = Some foo_class"
  by (simp add: example_env_def foo_class_def)

text \<open>
  Applying the one transform of an if-chain method of the example, as the \<open>n\<close>-th of its
  dex, in a world that holds the copy.
\<close>

lemma apply_transform_if_chain:
  assumes "ircode_heap w (code_copy mt) = Some if_chain_cfg"
    and "dex_methods w (mt_method mt) = Some dm"
    and "fst (mt_method mt) = ''LFoo;''" and "transforms mt = [if_chain_transform]"
  shows "apply_transform example_env ps_min2 mt n w =
     Inr (\<lparr>methods_transformed = 1, const_class_instructions_removed = 1, string_tree_size = 4\<rparr>,
          installed example_env w mt dm (pruned_if_chain_cfg n)
            [create_string_getter_method ''LFoo;'' n ''A;B;''])"
  using assms
  by (simp add: apply_transform_def installed_def type_class_of_foo
      apply_branch_transform_if_chain remove_unreachable_edited_if_chain
      num_const_class_if_chain num_const_class_pruned_if_chain)

theorem unreachable_blocks_removed_before_install_witness:
  "\<exists>result w' cfg.
     apply_transform example_env ps_min2 baz_transform 0 gathered_world = Inr (result, w') \<and>
     live_code w' (mt_method baz_transform) = Some cfg \<and>
     map fst (blocks cfg) = [0, 2, 3, 4] \<and>
     (entry_block cfg, 4) \<in> (succ_rel cfg)\<^sup>* \<and>
     const_class_instructions_removed result = 1"
proof -
  let ?dm = "\<lparr>rstate_no_optimizations = False, code_ptr = Some 1\<rparr>"
  let ?result = "\<lparr>methods_transformed = 1, const_class_instructions_removed = 1,
                   string_tree_size = 4\<rparr>"
  let ?w' = "installed example_env gathered_world baz_transform ?dm (pruned_if_chain_cfg 0)
            [create_string_getter_method ''LFoo;'' 0 ''A;B;'']"
  have dm: "dex_methods gathered_world (mt_method baz_transform) = Some ?dm"
    by (simp add: gathered_world_def example_world_def baz_transform_def foo_baz_def foo_bar_def
        foo_nop_def)
  have r: "apply_transform example_env ps_min2 baz_transform 0 gathered_world = Inr (?result, ?w')"
    by (rule apply_transform_if_chain)
      (simp_all add: dm, simp_all add: gathered_world_def baz_transform_def foo_baz_def)
  have nl: "\<forall>dm. dex_methods gathered_world (mt_method baz_transform) = Some dm \<longrightarrow>
              code_ptr dm \<noteq> Some (code_copy baz_transform)"
    by (simp add: dm) (simp add: baz_transform_def)
  from unreachable_blocks_removed_before_install[OF r nl] obtain cfg1 where
    l: "live_code ?w' (mt_method baz_transform) = Some (remove_unreachable_blocks cfg1)"
    and re: "\<forall>b \<in> fst ` set (blocks (remove_unreachable_blocks cfg1)).
              (entry_block (remove_unreachable_blocks cfg1), b)
                \<in> (succ_rel (remove_unreachable_blocks cfg1))\<^sup>*"
    by blast
  have "live_code ?w' (mt_method baz_transform) = Some (pruned_if_chain_cfg 0)"
    by (rule live_code_installed) (simp add: baz_transform_def)
  with l have eq: "remove_unreachable_blocks cfg1 = pruned_if_chain_cfg 0" by simp
  have b: "map fst (blocks (pruned_if_chain_cfg 0)) = [0, 2, 3, 4]"
    by (simp add: pruned_if_chain_cfg_def edited_if_chain_cfg_def)
  from re have "\<forall>b \<in> set (map fst (blocks (pruned_if_chain_cfg 0))).
      (entry_block (pruned_if_chain_cfg 0), b) \<in> (succ_rel (pruned_if_chain_cfg 0))\<^sup>*"
    unfolding eq by simp
  then have "(entry_block (pruned_if_chain_cfg 0), 4) \<in> (succ_rel (pruned_if_chain_cfg 0))\<^sup>*"
    unfolding b by simp
  with r l eq b show ?thesis by auto
qed


section \<open>The cap on the transforms of a dex\<close>

text \<open>
  The entries that the loop of \<^verbatim>\<open>apply_transforms_dex\<close> gets to before the break, and the
  loop without the check of the cap.
\<close>

fun select_under_cap :: "nat \<Rightarrow> nat \<Rightarrow> method_transform list \<Rightarrow> method_transform list" where
  "select_under_cap cap transform_count [] = []"
| "select_under_cap cap transform_count (mt # rest) =
     (if transform_count + length (transforms mt) > cap then []
      else mt # select_under_cap cap (transform_count + length (transforms mt)) rest)"

fun apply_selected ::
  "analysis_env \<Rightarrow> pass_state \<Rightarrow> method_transform list \<Rightarrow> nat \<Rightarrow> stats \<times> world
   \<Rightarrow> error + (stats \<times> world)" where
  "apply_selected env ps [] transform_count st = Inr st"
| "apply_selected env ps (mt # rest) transform_count st =
     (case apply_transform env ps mt transform_count (snd st) of
        Inl e \<Rightarrow> Inl e
      | Inr (result, w) \<Rightarrow>
          apply_selected env ps rest (transform_count + length (transforms mt))
            (stats_add (fst st) result, w))"

definition branch_transforms_in :: "method_transform list \<Rightarrow> nat" where
  "branch_transforms_in mts = sum_list (map (\<lambda>mt. length (transforms mt)) mts)"

lemma apply_dex_loop_selected:
  "apply_dex_loop env ps cap xs transform_count st =
     apply_selected env ps (select_under_cap cap transform_count xs) transform_count st"
  by (induction xs arbitrary: transform_count st) (auto simp: Let_def split: sum.splits)

lemma branch_transforms_in_Cons [simp]:
  "branch_transforms_in (mt # mts) = length (transforms mt) + branch_transforms_in mts"
  by (simp add: branch_transforms_in_def)

lemma branch_transforms_in_Nil [simp]: "branch_transforms_in [] = 0"
  by (simp add: branch_transforms_in_def)

lemma select_under_cap_bound:
  "transform_count \<le> cap \<Longrightarrow>
   transform_count + branch_transforms_in (select_under_cap cap transform_count xs) \<le> cap"
proof (induction xs arbitrary: transform_count)
  case Nil
  then show ?case by simp
next
  case (Cons mt xs)
  show ?case
  proof (cases "transform_count + length (transforms mt) > cap")
    case True
    with Cons.prems show ?thesis by simp
  next
    case False
    then have "transform_count + length (transforms mt) \<le> cap" by simp
    from Cons.IH[OF this] False show ?thesis by (simp add: add.assoc)
  qed
qed

lemma select_under_cap_prefix:
  "\<exists>skipped. xs = select_under_cap cap transform_count xs @ skipped \<and>
     (skipped \<noteq> [] \<longrightarrow>
        cap < transform_count + branch_transforms_in (select_under_cap cap transform_count xs) +
              length (transforms (hd skipped)))"
proof (induction xs arbitrary: transform_count)
  case Nil
  then show ?case by simp
next
  case (Cons mt xs)
  show ?case
  proof (cases "transform_count + length (transforms mt) > cap")
    case True
    then show ?thesis by simp
  next
    case False
    from Cons[of "transform_count + length (transforms mt)"] obtain skipped where
      "xs = select_under_cap cap (transform_count + length (transforms mt)) xs @ skipped"
      "skipped \<noteq> [] \<longrightarrow>
        cap < transform_count + length (transforms mt) +
              branch_transforms_in (select_under_cap cap (transform_count + length (transforms mt)) xs) +
              length (transforms (hd skipped))"
      by blast
    with False show ?thesis
      by (intro exI[of _ skipped]) (simp add: add.assoc)
  qed
qed

lemma apply_branch_transform_needs_class:
  "apply_branch_transform env ps method_class None cfg transform_count t \<noteq> Inr r"
  by (simp add: apply_branch_transform_def Let_def split_def split: sum.splits)

lemma apply_branch_transforms_getters:
  assumes "apply_branch_transforms env ps method_class cls cfg transform_count getters sz ts =
             Inr (cfg', getters', sz')"
  shows "length getters' = length getters + length ts \<and> (ts \<noteq> [] \<longrightarrow> cls \<noteq> None)"
  using assms
proof (induction ts arbitrary: cfg transform_count getters sz)
  case Nil
  then show ?case by simp
next
  case (Cons t ts)
  from Cons.prems obtain cfg1 getter sz1 where
    one: "apply_branch_transform env ps method_class cls cfg transform_count t = Inr (cfg1, getter, sz1)"
    and rest: "apply_branch_transforms env ps method_class cls cfg1 (transform_count + 1)
                 (getters @ [getter]) sz1 ts = Inr (cfg', getters', sz')"
    by (auto split: sum.splits)
  from one have "cls \<noteq> None"
    using apply_branch_transform_needs_class by (cases cls) auto
  with Cons.IH[OF rest] show ?case by simp
qed

lemma apply_transform_added:
  assumes "apply_transform env ps mt transform_count w = Inr (result, w')"
  shows "length (added_methods w') = length (added_methods w) + length (transforms mt) \<and>
         methods_transformed result = 1"
proof -
  from apply_transform_Inr[OF assms] obtain cfg0 cfg1 getters sz dm where
    a: "apply_branch_transforms env ps (fst (mt_method mt))
             (type_class_of env (fst (mt_method mt))) cfg0 transform_count [] 0 (transforms mt) =
             Inr (cfg1, getters, sz)"
    and r: "methods_transformed result = 1"
    and w': "w' = installed env w mt dm (remove_unreachable_blocks cfg1) getters"
    by auto
  from apply_branch_transforms_getters[OF a]
  have "length getters = length (transforms mt)"
    and "transforms mt \<noteq> [] \<longrightarrow> type_class_of env (fst (mt_method mt)) \<noteq> None"
    by simp_all
  then have "length (added_methods w') = length (added_methods w) + length (transforms mt)"
    unfolding w' by (cases "type_class_of env (fst (mt_method mt))")
      (auto simp: installed_def set_code_def)
  with r show ?thesis by simp
qed

lemma apply_selected_added:
  assumes "apply_selected env ps xs transform_count (stats, w) = Inr (stats', w')"
  shows "length (added_methods w') = length (added_methods w) + branch_transforms_in xs \<and>
         methods_transformed stats' = methods_transformed stats + length xs"
  using assms
proof (induction xs arbitrary: transform_count stats w)
  case Nil
  then show ?case by simp
next
  case (Cons mt xs)
  from Cons.prems obtain result w1 where
    one: "apply_transform env ps mt transform_count w = Inr (result, w1)"
    and rest: "apply_selected env ps xs (transform_count + length (transforms mt))
                 (stats_add stats result, w1) = Inr (stats', w')"
    by (auto split: sum.splits)
  from Cons.IH[OF rest] apply_transform_added[OF one]
  show ?case by (simp add: stats_add_def)
qed

lemma set_per_dex_transforms:
  "set (per_dex_transforms env mts d) =
     {mt \<in> set mts. \<exists>c \<in> set d. type_class_of env (fst (mt_method mt)) = Some c}"
  by (auto simp: per_dex_transforms_def per_class_transforms_def)

lemma distinct_per_class_concat:
  assumes "distinct mts" and "distinct cs"
  shows "distinct (concat (map (per_class_transforms env mts) cs))"
  using assms(2)
proof (induction cs)
  case Nil
  then show ?case by simp
next
  case (Cons c cs)
  have "set (per_class_transforms env mts c) \<inter>
        set (concat (map (per_class_transforms env mts) cs)) = {}"
    using Cons.prems by (auto simp: per_class_transforms_def)
  with Cons assms(1) show ?case by (simp add: per_class_transforms_def)
qed

text \<open>
  Claim C4. The candidates of a dex are the gathered entries whose method's class is one
  of the classes of the dex, each once. When their branch transforms exceed
  \<open>transforms_per_dex\<close>, the entries are sorted by the total order on their methods and
  applied from the back until the next one would exceed the cap; the others are skipped,
  which is not an error: the outcome is the outcome of applying the selected entries. At
  most \<open>transforms_per_dex\<close> branch transforms are applied, each of which adds one getter.
\<close>

theorem excess_candidates_skipped_in_method_order:
  "set (per_dex_transforms env method_transforms dex_file) =
     {mt \<in> set method_transforms.
        \<exists>c \<in> set dex_file. type_class_of env (fst (mt_method mt)) = Some c} \<and>
   (distinct method_transforms \<and> distinct dex_file \<longrightarrow>
      distinct (per_dex_transforms env method_transforms dex_file)) \<and>
   apply_transforms_dex env ps cap method_transforms dex_file st =
     apply_selected env ps
       (select_under_cap cap 0 (rev (per_dex_transforms env method_transforms dex_file))) 0 st \<and>
   sorted (map mt_method (per_dex_transforms env method_transforms dex_file)) \<and>
   (\<exists>skipped.
      rev (per_dex_transforms env method_transforms dex_file) =
        select_under_cap cap 0 (rev (per_dex_transforms env method_transforms dex_file)) @ skipped \<and>
      (skipped \<noteq> [] \<longrightarrow>
         cap < branch_transforms_in
                 (select_under_cap cap 0 (rev (per_dex_transforms env method_transforms dex_file))) +
               length (transforms (hd skipped)))) \<and>
   branch_transforms_in
     (select_under_cap cap 0 (rev (per_dex_transforms env method_transforms dex_file))) \<le> cap \<and>
   (\<forall>stats' w'. apply_transforms_dex env ps cap method_transforms dex_file st = Inr (stats', w') \<longrightarrow>
      length (added_methods w') = length (added_methods (snd st)) +
        branch_transforms_in
          (select_under_cap cap 0 (rev (per_dex_transforms env method_transforms dex_file))) \<and>
      length (added_methods w') \<le> length (added_methods (snd st)) + cap)"
proof -
  let ?xs = "rev (per_dex_transforms env method_transforms dex_file)"
  have eq: "apply_transforms_dex env ps cap method_transforms dex_file st =
     apply_selected env ps (select_under_cap cap 0 ?xs) 0 st"
    by (simp add: apply_transforms_dex_def apply_dex_loop_selected)
  have so: "sorted (map mt_method (per_dex_transforms env method_transforms dex_file))"
    by (simp add: per_dex_transforms_def)
  have pre: "\<exists>skipped. ?xs = select_under_cap cap 0 ?xs @ skipped \<and>
      (skipped \<noteq> [] \<longrightarrow>
         cap < branch_transforms_in (select_under_cap cap 0 ?xs) + length (transforms (hd skipped)))"
    using select_under_cap_prefix[of ?xs cap 0] by simp
  have bd: "branch_transforms_in (select_under_cap cap 0 ?xs) \<le> cap"
    using select_under_cap_bound[of 0 cap ?xs] by simp
  have ad: "\<forall>stats' w'. apply_transforms_dex env ps cap method_transforms dex_file st = Inr (stats', w') \<longrightarrow>
      length (added_methods w') = length (added_methods (snd st)) +
        branch_transforms_in (select_under_cap cap 0 ?xs) \<and>
      length (added_methods w') \<le> length (added_methods (snd st)) + cap"
  proof (intro allI impI)
    fix stats' w'
    assume "apply_transforms_dex env ps cap method_transforms dex_file st = Inr (stats', w')"
    with eq have "apply_selected env ps (select_under_cap cap 0 ?xs) 0 (fst st, snd st) = Inr (stats', w')"
      by simp
    from apply_selected_added[OF this] bd
    show "length (added_methods w') = length (added_methods (snd st)) +
        branch_transforms_in (select_under_cap cap 0 ?xs) \<and>
      length (added_methods w') \<le> length (added_methods (snd st)) + cap"
      by simp
  qed
  have gr: "set (per_dex_transforms env method_transforms dex_file) =
     {mt \<in> set method_transforms.
        \<exists>c \<in> set dex_file. type_class_of env (fst (mt_method mt)) = Some c}"
    by (rule set_per_dex_transforms)
  have di: "distinct method_transforms \<and> distinct dex_file \<longrightarrow>
      distinct (per_dex_transforms env method_transforms dex_file)"
    using distinct_per_class_concat[of method_transforms dex_file env]
    by (simp add: per_dex_transforms_def)
  show ?thesis
    by (intro conjI) (fact gr di eq so pre bd ad)+
qed

lemma foo_bar_less_foo_baz: "foo_bar < foo_baz"
  by code_simp

lemma per_dex_transforms_example:
  "per_dex_transforms example_env gathered_transforms [foo_class] = [bar_transform, baz_transform]"
proof -
  have "mt_method bar_transform < mt_method baz_transform"
    using foo_bar_less_foo_baz by (simp add: bar_transform_def baz_transform_def)
  then have "sort_key mt_method [baz_transform, bar_transform] = [bar_transform, baz_transform]"
    by (simp add: not_le)
  moreover have "per_class_transforms example_env gathered_transforms foo_class =
      [baz_transform, bar_transform]"
    by (simp add: per_class_transforms_def gathered_transforms_def baz_transform_def
        bar_transform_def foo_baz_def foo_bar_def type_class_of_foo)
  ultimately show ?thesis by (simp add: per_dex_transforms_def)
qed

lemma baz_in_gathered_world:
  "ircode_heap gathered_world (code_copy baz_transform) = Some if_chain_cfg"
  "dex_methods gathered_world (mt_method baz_transform) =
     Some \<lparr>rstate_no_optimizations = False, code_ptr = Some 1\<rparr>"
  "fst (mt_method baz_transform) = ''LFoo;''"
  "transforms baz_transform = [if_chain_transform]"
  by (simp_all add: gathered_world_def example_world_def baz_transform_def foo_baz_def
      foo_bar_def foo_nop_def)

text \<open>A second dex, which holds the class \<open>LA;\<close> only.\<close>

definition class_A :: dex_class where
  "class_A = \<lparr>class_type = ''LA;'', is_external = False\<rparr>"

text \<open>
  With a cap of one, the dex of the class \<open>LFoo;\<close> gets the transform of \<open>baz\<close>, the
  greater of its two methods, and the one of \<open>bar\<close> is skipped. The dex of the class
  \<open>LA;\<close> gets no entry of the shared vector.
\<close>

theorem excess_candidates_skipped_in_method_order_witness:
  "distinct gathered_transforms \<and> distinct [foo_class] \<and>
   distinct (per_dex_transforms example_env gathered_transforms [foo_class]) \<and>
   rev (per_dex_transforms example_env gathered_transforms [foo_class]) =
     [baz_transform, bar_transform] \<and>
   per_dex_transforms example_env gathered_transforms [class_A] = [] \<and>
   select_under_cap 1 0 (rev (per_dex_transforms example_env gathered_transforms [foo_class])) =
     [baz_transform] \<and>
   (\<exists>stats' w'.
      apply_transforms_dex example_env ps_min2 1 gathered_transforms [foo_class]
        (empty_stats, gathered_world) = Inr (stats', w') \<and>
      methods_transformed stats' = 1 \<and>
      length (added_methods w') = 1)"
proof -
  let ?st = "(empty_stats, gathered_world)"
  have sel: "select_under_cap 1 0 (rev (per_dex_transforms example_env gathered_transforms [foo_class])) =
     [baz_transform]"
    by (simp add: per_dex_transforms_example) (simp add: baz_transform_def bar_transform_def)
  have dg: "distinct gathered_transforms"
    by (simp add: gathered_transforms_def baz_transform_def bar_transform_def)
  have df: "distinct [foo_class]" by simp
  from excess_candidates_skipped_in_method_order[of example_env gathered_transforms
      "[foo_class]" ps_min2 1 ?st]
  have di: "distinct gathered_transforms \<and> distinct [foo_class] \<longrightarrow>
      distinct (per_dex_transforms example_env gathered_transforms [foo_class])"
    and eq: "apply_transforms_dex example_env ps_min2 1 gathered_transforms [foo_class] ?st =
      apply_selected example_env ps_min2
        (select_under_cap 1 0 (rev (per_dex_transforms example_env gathered_transforms [foo_class])))
        0 ?st"
    and ad: "\<forall>stats' w'. apply_transforms_dex example_env ps_min2 1 gathered_transforms [foo_class]
        ?st = Inr (stats', w') \<longrightarrow>
      length (added_methods w') = length (added_methods (snd ?st)) +
        branch_transforms_in
          (select_under_cap 1 0 (rev (per_dex_transforms example_env gathered_transforms [foo_class])))"
    by blast+
  from di dg df have dp: "distinct (per_dex_transforms example_env gathered_transforms [foo_class])"
    by blast
  from excess_candidates_skipped_in_method_order[of example_env gathered_transforms
      "[class_A]" ps_min2 1 ?st]
  have "set (per_dex_transforms example_env gathered_transforms [class_A]) =
     {mt \<in> set gathered_transforms.
        \<exists>c \<in> set [class_A]. type_class_of example_env (fst (mt_method mt)) = Some c}"
    by blast
  also have "\<dots> = {}"
    by (auto simp: gathered_transforms_def baz_transform_def bar_transform_def foo_baz_def
        foo_bar_def type_class_of_foo foo_class_def class_A_def)
  finally have na: "per_dex_transforms example_env gathered_transforms [class_A] = []"
    by simp
  obtain stats' w' where r: "apply_transforms_dex example_env ps_min2 1 gathered_transforms
      [foo_class] ?st = Inr (stats', w')" and m: "methods_transformed stats' = 1"
    unfolding eq sel
    by (simp add: apply_transform_if_chain[OF baz_in_gathered_world] stats_add_def empty_stats_def)
  from ad r have "length (added_methods w') = 1"
    unfolding sel by (simp add: gathered_world_def example_world_def baz_transform_def)
  with r m have ex: "\<exists>stats' w'.
      apply_transforms_dex example_env ps_min2 1 gathered_transforms [foo_class]
        (empty_stats, gathered_world) = Inr (stats', w') \<and>
      methods_transformed stats' = 1 \<and>
      length (added_methods w') = 1"
    by blast
  have rv: "rev (per_dex_transforms example_env gathered_transforms [foo_class]) =
     [baz_transform, bar_transform]"
    by (simp add: per_dex_transforms_example)
  show ?thesis
    by (intro conjI) (fact dg df dp rv na sel ex)+
qed


section \<open>Copy, then swap\<close>

text \<open>
  Ownership of code objects: the code of a method lies below \<open>next_addr\<close>, and no two
  methods hold the same code object.
\<close>

definition wf_world :: "world \<Rightarrow> bool" where
  "wf_world w \<longleftrightarrow>
     (\<forall>m dm a. dex_methods w m = Some dm \<and> code_ptr dm = Some a \<longrightarrow> a < next_addr w) \<and>
     (\<forall>m m' dm dm' a. dex_methods w m = Some dm \<and> dex_methods w m' = Some dm' \<and>
        code_ptr dm = Some a \<and> code_ptr dm' = Some a \<longrightarrow> m = m')"

text \<open>A code object that is the code of no method.\<close>

definition not_live :: "world \<Rightarrow> ircode_addr \<Rightarrow> bool" where
  "not_live w a \<longleftrightarrow> (\<forall>m dm. dex_methods w m = Some dm \<longrightarrow> code_ptr dm \<noteq> Some a)"

lemma not_liveD: "not_live w a \<Longrightarrow> dex_methods w m = Some dm \<Longrightarrow> code_ptr dm \<noteq> Some a"
  unfolding not_live_def by blast

lemma not_liveI:
  "(\<And>m dm. dex_methods w m = Some dm \<Longrightarrow> code_ptr dm \<noteq> Some a) \<Longrightarrow> not_live w a"
  unfolding not_live_def by blast

lemma wf_world_below:
  "wf_world w \<Longrightarrow> dex_methods w m = Some dm \<Longrightarrow> code_ptr dm = Some a \<Longrightarrow> a < next_addr w"
  unfolding wf_world_def by blast

lemma wf_world_unique:
  "wf_world w \<Longrightarrow> dex_methods w m = Some dm \<Longrightarrow> dex_methods w m' = Some dm' \<Longrightarrow>
   code_ptr dm = Some a \<Longrightarrow> code_ptr dm' = Some a \<Longrightarrow> m = m'"
  unfolding wf_world_def by blast

lemma installed_other_method:
  assumes "wf_world w" and "dex_methods w (mt_method mt) = Some dm"
    and "not_live w (code_copy mt)" and "m' \<noteq> mt_method mt"
  shows "dex_methods (installed env w mt dm cfg getters) m' = dex_methods w m'"
    and "live_code (installed env w mt dm cfg getters) m' = live_code w m'"
proof -
  show d: "dex_methods (installed env w mt dm cfg getters) m' = dex_methods w m'"
    using assms(4) by (simp add: installed_def set_code_def)
  show "live_code (installed env w mt dm cfg getters) m' = live_code w m'"
  proof (cases "dex_methods w m'")
    case None
    with d show ?thesis by (simp add: live_code_def)
  next
    case (Some dm')
    show ?thesis
    proof (cases "code_ptr dm'")
      case None
      with Some d show ?thesis by (simp add: live_code_def get_code_def)
    next
      case (Some b)
      with \<open>dex_methods w m' = Some dm'\<close> assms(3) have ne: "b \<noteq> code_copy mt"
        using not_liveD by blast
      have "code_ptr dm \<noteq> Some b"
        using assms(1,2,4) \<open>dex_methods w m' = Some dm'\<close> Some wf_world_unique by blast
      with ne Some \<open>dex_methods w m' = Some dm'\<close> d show ?thesis
        by (auto simp: live_code_def get_code_def installed_def set_code_def split: option.splits)
    qed
  qed
qed

lemma installed_this_method:
  assumes "dex_methods w (mt_method mt) = Some dm" and "not_live w (code_copy mt)"
  shows "dex_methods (installed env w mt dm cfg getters) (mt_method mt) =
           Some (dm\<lparr>code_ptr := Some (code_copy mt)\<rparr>)"
    and "live_code (installed env w mt dm cfg getters) (mt_method mt) = Some cfg"
proof -
  show "dex_methods (installed env w mt dm cfg getters) (mt_method mt) =
           Some (dm\<lparr>code_ptr := Some (code_copy mt)\<rparr>)"
    by (simp add: installed_def set_code_def)
  from assms have "code_ptr dm \<noteq> Some (code_copy mt)"
    using not_liveD by blast
  then show "live_code (installed env w mt dm cfg getters) (mt_method mt) = Some cfg"
    by (rule live_code_installed)
qed

lemma installed_pending_copy:
  assumes "dex_methods w (mt_method mt) = Some dm"
    and "not_live w a'" and "a' \<noteq> code_copy mt"
  shows "not_live (installed env w mt dm cfg getters) a'"
    and "ircode_heap (installed env w mt dm cfg getters) a' = ircode_heap w a'"
proof -
  show "not_live (installed env w mt dm cfg getters) a'"
  proof (rule not_liveI)
    fix m dm'
    assume "dex_methods (installed env w mt dm cfg getters) m = Some dm'"
    then have "(m = mt_method mt \<and> dm' = dm\<lparr>code_ptr := Some (code_copy mt)\<rparr>) \<or>
               dex_methods w m = Some dm'"
      by (auto simp: installed_def set_code_def split: if_splits)
    with assms(2,3) show "code_ptr dm' \<noteq> Some a'"
      using not_liveD by fastforce
  qed
  from assms(1,2) have "code_ptr dm \<noteq> Some a'"
    using not_liveD by blast
  with assms(3) show "ircode_heap (installed env w mt dm cfg getters) a' = ircode_heap w a'"
    by (auto simp: installed_def set_code_def split: option.splits)
qed

lemma installed_wf_world:
  assumes "wf_world w" and "dex_methods w (mt_method mt) = Some dm"
    and "not_live w (code_copy mt)" and "code_copy mt < next_addr w"
  shows "wf_world (installed env w mt dm cfg getters)"
    and "next_addr (installed env w mt dm cfg getters) = next_addr w"
proof -
  let ?w' = "installed env w mt dm cfg getters"
  show n: "next_addr ?w' = next_addr w"
    by (simp add: installed_def set_code_def)
  have dm': "dex_methods ?w' = (dex_methods w)(mt_method mt \<mapsto> dm\<lparr>code_ptr := Some (code_copy mt)\<rparr>)"
    by (simp add: installed_def set_code_def)
  have below: "\<forall>m dm' a. dex_methods ?w' m = Some dm' \<and> code_ptr dm' = Some a \<longrightarrow> a < next_addr ?w'"
  proof (intro allI impI)
    fix m dm' a
    assume h: "dex_methods ?w' m = Some dm' \<and> code_ptr dm' = Some a"
    show "a < next_addr ?w'"
    proof (cases "m = mt_method mt")
      case True
      with h assms(4) show ?thesis by (auto simp: dm' n)
    next
      case False
      with h have "dex_methods w m = Some dm'" by (simp add: dm')
      with h assms(1) have "a < next_addr w" using wf_world_below by blast
      then show ?thesis by (simp add: n)
    qed
  qed
  have uniq: "\<forall>m m' dm1 dm2 a. dex_methods ?w' m = Some dm1 \<and> dex_methods ?w' m' = Some dm2 \<and>
        code_ptr dm1 = Some a \<and> code_ptr dm2 = Some a \<longrightarrow> m = m'"
  proof (intro allI impI)
    fix m m' dm1 dm2 a
    assume h: "dex_methods ?w' m = Some dm1 \<and> dex_methods ?w' m' = Some dm2 \<and>
        code_ptr dm1 = Some a \<and> code_ptr dm2 = Some a"
    show "m = m'"
    proof (cases "m = mt_method mt")
      case True
      with h have a: "a = code_copy mt" by (auto simp: dm')
      show ?thesis
      proof (rule ccontr)
        assume "m \<noteq> m'"
        with True h have "dex_methods w m' = Some dm2" by (auto simp: dm')
        with assms(3) h a show False using not_liveD by blast
      qed
    next
      case False
      with h have m: "dex_methods w m = Some dm1" by (auto simp: dm')
      show ?thesis
      proof (cases "m' = mt_method mt")
        case True
        with h have "a = code_copy mt" by (auto simp: dm')
        with assms(3) m h show ?thesis using not_liveD by blast
      next
        case False
        with h have "dex_methods w m' = Some dm2" by (auto simp: dm')
        with assms(1) m h show ?thesis using wf_world_unique by blast
      qed
    qed
  qed
  from below uniq show "wf_world ?w'" unfolding wf_world_def by blast
qed


text \<open>
  Entries whose copies are distinct code objects of distinct methods, none of them the code
  of a method yet.
\<close>

definition owned_copies :: "world \<Rightarrow> method_transform list \<Rightarrow> bool" where
  "owned_copies w xs \<longleftrightarrow>
     distinct (map code_copy xs) \<and> distinct (map mt_method xs) \<and>
     (\<forall>mt \<in> set xs. not_live w (code_copy mt) \<and> code_copy mt < next_addr w)"

lemma owned_copies_append:
  "owned_copies w (xs @ ys) \<Longrightarrow> owned_copies w xs \<and> owned_copies w ys"
  by (auto simp: owned_copies_def)

lemma apply_selected_frame:
  assumes "wf_world w" and "owned_copies w xs"
    and "apply_selected env ps xs n (stats, w) = Inr (stats', w')"
  shows "wf_world w' \<and> next_addr w' = next_addr w \<and>
         (\<forall>m'. m' \<notin> mt_method ` set xs \<longrightarrow>
            dex_methods w' m' = dex_methods w m' \<and> live_code w' m' = live_code w m') \<and>
         (\<forall>mt \<in> set xs. \<exists>dm. dex_methods w' (mt_method mt) = Some dm \<and>
            code_ptr dm = Some (code_copy mt)) \<and>
         (\<forall>a'. not_live w a' \<and> a' \<notin> code_copy ` set xs \<longrightarrow>
            not_live w' a' \<and> ircode_heap w' a' = ircode_heap w a')"
  using assms
proof (induction xs arbitrary: n stats w)
  case Nil
  then show ?case by simp
next
  case (Cons mt xs)
  from Cons.prems(3) obtain result w1 where
    one: "apply_transform env ps mt n w = Inr (result, w1)"
    and rest: "apply_selected env ps xs (n + length (transforms mt)) (stats_add stats result, w1) =
                 Inr (stats', w')"
    by (auto split: sum.splits)
  from apply_transform_Inr[OF one] obtain cfg getters dm where
    dm: "dex_methods w (mt_method mt) = Some dm"
    and w1: "w1 = installed env w mt dm cfg getters"
    by blast
  from Cons.prems(2) have nl: "not_live w (code_copy mt)" and lt: "code_copy mt < next_addr w"
    and dc: "code_copy mt \<notin> code_copy ` set xs" and dmt: "mt_method mt \<notin> mt_method ` set xs"
    and oxs: "distinct (map code_copy xs)" "distinct (map mt_method xs)"
    and pend: "\<forall>mt' \<in> set xs. not_live w (code_copy mt') \<and> code_copy mt' < next_addr w"
    by (auto simp: owned_copies_def)
  have wf1: "wf_world w1" and n1: "next_addr w1 = next_addr w"
    unfolding w1 using installed_wf_world[OF Cons.prems(1) dm nl lt] by simp_all
  have own1: "owned_copies w1 xs"
    unfolding owned_copies_def
  proof (intro conjI ballI)
    fix mt'
    assume m: "mt' \<in> set xs"
    with dc have "code_copy mt' \<noteq> code_copy mt" by (metis imageI)
    with pend m show "not_live w1 (code_copy mt')"
      unfolding w1 using installed_pending_copy(1)[OF dm] by blast
    from pend m show "code_copy mt' < next_addr w1" by (simp add: n1)
  qed (fact oxs)+
  from Cons.IH[OF wf1 own1 rest] have
    wf': "wf_world w'" and n': "next_addr w' = next_addr w1"
    and oth: "\<forall>m'. m' \<notin> mt_method ` set xs \<longrightarrow>
            dex_methods w' m' = dex_methods w1 m' \<and> live_code w' m' = live_code w1 m'"
    and ins: "\<forall>mt \<in> set xs. \<exists>dm. dex_methods w' (mt_method mt) = Some dm \<and>
            code_ptr dm = Some (code_copy mt)"
    and cop: "\<forall>a'. not_live w1 a' \<and> a' \<notin> code_copy ` set xs \<longrightarrow>
            not_live w' a' \<and> ircode_heap w' a' = ircode_heap w1 a'"
    by blast+
  have a: "\<forall>m'. m' \<notin> mt_method ` set (mt # xs) \<longrightarrow>
            dex_methods w' m' = dex_methods w m' \<and> live_code w' m' = live_code w m'"
  proof (intro allI impI)
    fix m'
    assume "m' \<notin> mt_method ` set (mt # xs)"
    then have ne: "m' \<noteq> mt_method mt" and nx: "m' \<notin> mt_method ` set xs" by auto
    from oth nx have "dex_methods w' m' = dex_methods w1 m' \<and> live_code w' m' = live_code w1 m'"
      by blast
    with installed_other_method[OF Cons.prems(1) dm nl ne, of env cfg getters]
    show "dex_methods w' m' = dex_methods w m' \<and> live_code w' m' = live_code w m'"
      unfolding w1 by simp
  qed
  have b: "\<forall>mt' \<in> set (mt # xs). \<exists>dm. dex_methods w' (mt_method mt') = Some dm \<and>
            code_ptr dm = Some (code_copy mt')"
  proof
    fix mt'
    assume "mt' \<in> set (mt # xs)"
    then consider "mt' = mt" | "mt' \<in> set xs" by auto
    then show "\<exists>dm. dex_methods w' (mt_method mt') = Some dm \<and> code_ptr dm = Some (code_copy mt')"
    proof cases
      case 1
      from oth dmt have "dex_methods w' (mt_method mt) = dex_methods w1 (mt_method mt)" by blast
      with installed_this_method(1)[OF dm nl, of env cfg getters] 1 show ?thesis
        unfolding w1 by simp
    next
      case 2
      with ins show ?thesis by blast
    qed
  qed
  have c: "\<forall>a'. not_live w a' \<and> a' \<notin> code_copy ` set (mt # xs) \<longrightarrow>
            not_live w' a' \<and> ircode_heap w' a' = ircode_heap w a'"
  proof (intro allI impI)
    fix a'
    assume h: "not_live w a' \<and> a' \<notin> code_copy ` set (mt # xs)"
    then have ne: "a' \<noteq> code_copy mt" and nx: "a' \<notin> code_copy ` set xs" by auto
    from h have "not_live w a'" by simp
    from installed_pending_copy[OF dm this ne]
    have "not_live w1 a'" "ircode_heap w1 a' = ircode_heap w a'"
      unfolding w1 by blast+
    moreover from this cop nx have "not_live w' a' \<and> ircode_heap w' a' = ircode_heap w1 a'"
      by blast
    ultimately show "not_live w' a' \<and> ircode_heap w' a' = ircode_heap w a'" by simp
  qed
  from wf' n' n1 a b c show ?case by simp
qed


text \<open>
  The entries that are candidates in some dex file, and those among them that the pass
  applies.
\<close>

definition candidate_transforms ::
  "analysis_env \<Rightarrow> method_transform list \<Rightarrow> dex_class list list \<Rightarrow> method_transform list" where
  "candidate_transforms env method_transforms dex_files =
     concat (map (per_dex_transforms env method_transforms) dex_files)"

definition applied_transforms ::
  "analysis_env \<Rightarrow> nat \<Rightarrow> method_transform list \<Rightarrow> dex_class list list
   \<Rightarrow> method_transform list" where
  "applied_transforms env cap method_transforms dex_files =
     concat (map (\<lambda>dex_file. select_under_cap cap 0
                    (rev (per_dex_transforms env method_transforms dex_file))) dex_files)"

lemma set_select_under_cap: "set (select_under_cap cap n xs) \<subseteq> set xs"
  using select_under_cap_prefix[of xs cap n] by (metis set_append sup_ge1)

lemma set_applied_transforms:
  "set (applied_transforms env cap mts dexes) \<subseteq> set (candidate_transforms env mts dexes)"
  using set_select_under_cap
  by (fastforce simp: applied_transforms_def candidate_transforms_def)

lemma owned_copies_select:
  assumes "owned_copies w xs"
  shows "owned_copies w (select_under_cap cap n (rev xs))"
proof -
  from select_under_cap_prefix[of "rev xs" cap n] obtain skipped where
    "rev xs = select_under_cap cap n (rev xs) @ skipped" by blast
  moreover from assms have "owned_copies w (rev xs)"
    by (simp add: owned_copies_def rev_map[symmetric])
  ultimately show ?thesis using owned_copies_append by metis
qed

lemma apply_phase_frame:
  assumes "wf_world w" and "owned_copies w (candidate_transforms env mts dexes)"
    and "apply_phase env ps cap mts dexes (stats, w) = Inr (stats', w')"
  shows "wf_world w' \<and> next_addr w' = next_addr w \<and>
         (\<forall>m'. m' \<notin> mt_method ` set (applied_transforms env cap mts dexes) \<longrightarrow>
            dex_methods w' m' = dex_methods w m' \<and> live_code w' m' = live_code w m') \<and>
         (\<forall>mt \<in> set (applied_transforms env cap mts dexes).
            \<exists>dm. dex_methods w' (mt_method mt) = Some dm \<and> code_ptr dm = Some (code_copy mt))"
  using assms
proof (induction dexes arbitrary: stats w)
  case Nil
  then show ?case by (simp add: applied_transforms_def)
next
  case (Cons d ds)
  let ?pd = "per_dex_transforms env mts d"
  let ?sel = "select_under_cap cap 0 (rev ?pd)"
  let ?rest = "candidate_transforms env mts ds"
  let ?app = "applied_transforms env cap mts ds"
  have cand: "candidate_transforms env mts (d # ds) = ?pd @ ?rest"
    by (simp add: candidate_transforms_def)
  have app: "applied_transforms env cap mts (d # ds) = ?sel @ ?app"
    by (simp add: applied_transforms_def)
  from Cons.prems(2) have opd: "owned_copies w ?pd" and orest: "owned_copies w ?rest"
    unfolding cand using owned_copies_append by blast+
  from Cons.prems(2) have disj_c: "code_copy ` set ?pd \<inter> code_copy ` set ?rest = {}"
    and disj_m: "mt_method ` set ?pd \<inter> mt_method ` set ?rest = {}"
    unfolding cand by (auto simp: owned_copies_def)
  have osel: "owned_copies w ?sel" using opd by (rule owned_copies_select)
  have ssel: "set ?sel \<subseteq> set ?pd"
    using set_select_under_cap[of cap 0 "rev ?pd"] by simp
  from Cons.prems(3) obtain s1 w1 where
    one: "apply_selected env ps ?sel 0 (stats, w) = Inr (s1, w1)"
    and rest: "apply_phase env ps cap mts ds (s1, w1) = Inr (stats', w')"
    by (auto simp: apply_transforms_dex_def apply_dex_loop_selected split: sum.splits)
  from apply_selected_frame[OF Cons.prems(1) osel one] have
    wf1: "wf_world w1" and n1: "next_addr w1 = next_addr w"
    and oth1: "\<forall>m'. m' \<notin> mt_method ` set ?sel \<longrightarrow>
            dex_methods w1 m' = dex_methods w m' \<and> live_code w1 m' = live_code w m'"
    and ins1: "\<forall>mt \<in> set ?sel. \<exists>dm. dex_methods w1 (mt_method mt) = Some dm \<and>
            code_ptr dm = Some (code_copy mt)"
    and cop1: "\<forall>a'. not_live w a' \<and> a' \<notin> code_copy ` set ?sel \<longrightarrow>
            not_live w1 a' \<and> ircode_heap w1 a' = ircode_heap w a'"
    by blast+
  have own1: "owned_copies w1 ?rest"
    unfolding owned_copies_def
  proof (intro conjI ballI)
    fix mt'
    assume m: "mt' \<in> set ?rest"
    with disj_c ssel have "code_copy mt' \<notin> code_copy ` set ?sel" by blast
    moreover from orest m have "not_live w (code_copy mt')" "code_copy mt' < next_addr w"
      by (auto simp: owned_copies_def)
    ultimately show "not_live w1 (code_copy mt')" "code_copy mt' < next_addr w1"
      using cop1 n1 by auto
  qed (use orest in \<open>auto simp: owned_copies_def\<close>)
  from Cons.IH[OF wf1 own1 rest] have
    wf': "wf_world w'" and n': "next_addr w' = next_addr w1"
    and oth: "\<forall>m'. m' \<notin> mt_method ` set ?app \<longrightarrow>
            dex_methods w' m' = dex_methods w1 m' \<and> live_code w' m' = live_code w1 m'"
    and ins: "\<forall>mt \<in> set ?app. \<exists>dm. dex_methods w' (mt_method mt) = Some dm \<and>
            code_ptr dm = Some (code_copy mt)"
    by blast+
  have a: "\<forall>m'. m' \<notin> mt_method ` set (?sel @ ?app) \<longrightarrow>
            dex_methods w' m' = dex_methods w m' \<and> live_code w' m' = live_code w m'"
  proof (intro allI impI)
    fix m'
    assume "m' \<notin> mt_method ` set (?sel @ ?app)"
    then have "m' \<notin> mt_method ` set ?sel" "m' \<notin> mt_method ` set ?app" by auto
    with oth1 oth have "dex_methods w1 m' = dex_methods w m' \<and> live_code w1 m' = live_code w m'"
      "dex_methods w' m' = dex_methods w1 m' \<and> live_code w' m' = live_code w1 m'"
      by blast+
    then show "dex_methods w' m' = dex_methods w m' \<and> live_code w' m' = live_code w m'" by simp
  qed
  have b: "\<forall>mt \<in> set (?sel @ ?app). \<exists>dm. dex_methods w' (mt_method mt) = Some dm \<and>
            code_ptr dm = Some (code_copy mt)"
  proof
    fix mt
    assume "mt \<in> set (?sel @ ?app)"
    then consider "mt \<in> set ?sel" | "mt \<in> set ?app" by auto
    then show "\<exists>dm. dex_methods w' (mt_method mt) = Some dm \<and> code_ptr dm = Some (code_copy mt)"
    proof cases
      case 1
      with ssel have "mt_method mt \<in> mt_method ` set ?pd" by blast
      with disj_m set_applied_transforms[of env cap mts ds]
      have "mt_method mt \<notin> mt_method ` set ?app" by blast
      with oth have "dex_methods w' (mt_method mt) = dex_methods w1 (mt_method mt)" by blast
      with ins1 1 show ?thesis by simp
    next
      case 2
      with ins show ?thesis by blast
    qed
  qed
  from wf' n' n1 a b show ?case unfolding app by simp
qed


text \<open>
  What the gathering of one method plans, as a function of the world: the transforms, or
  the error that stops the walk.
\<close>

definition planned_for ::
  "analysis_env \<Rightarrow> pass_state \<Rightarrow> world \<Rightarrow> dex_method_ref \<Rightarrow> error + branch_transform list" where
  "planned_for env ps w m =
     (case dex_methods w m of
        None \<Rightarrow> Inl NullDereference
      | Some dm \<Rightarrow>
          if should_consider_method ps
               \<lparr>no_optimizations = rstate_no_optimizations dm, method_code = get_code w dm\<rparr>
          then (case get_code w dm of
                  None \<Rightarrow> Inl NullDereference
                | Some code \<Rightarrow>
                    (case plan_transforms env ps (simplify_moves env code) of
                       Inl e \<Rightarrow> Inl e
                     | Inr gs \<Rightarrow> Inr (planned gs)))
          else Inr [])"

lemma gather_method_Inl:
  "gather_method env ps m (w, mts) = Inl e \<longleftrightarrow> planned_for env ps w m = Inl e"
  by (auto simp: gather_method_def planned_for_def gather_possible_transformations_def
      live_code_def Let_def split: option.splits sum.splits)

lemma gather_method_Inr:
  assumes "gather_method env ps m (w, mts) = Inr (w', mts')"
  shows "dex_methods w' = dex_methods w \<and> added_methods w' = added_methods w \<and>
         next_addr w \<le> next_addr w' \<and>
         (\<forall>a. a \<noteq> next_addr w \<longrightarrow> ircode_heap w' a = ircode_heap w a) \<and>
         (\<exists>ts. planned_for env ps w m = Inr ts \<and>
            (if ts = [] then mts' = mts
             else mts' = mts @ [\<lparr>mt_method = m, code_copy = next_addr w, transforms = ts\<rparr>] \<and>
                  next_addr w < next_addr w' \<and>
                  ircode_heap w' (next_addr w) = map_option (simplify_moves env) (live_code w m)))"
proof (cases "dex_methods w m")
  case None
  with assms show ?thesis by (simp add: gather_method_def)
next
  case (Some dm)
  show ?thesis
  proof (cases "should_consider_method ps
      \<lparr>no_optimizations = rstate_no_optimizations dm, method_code = get_code w dm\<rparr>")
    case False
    with assms Some show ?thesis
      by (auto simp: gather_method_def planned_for_def)
  next
    case True
    with assms Some have g: "gather_possible_transformations env ps m (w, mts) = Inr (w', mts')"
      by (simp add: gather_method_def)
    then obtain code where code: "get_code w dm = Some code"
      using Some by (auto simp: gather_possible_transformations_def live_code_def split: option.splits)
    from g code Some obtain gs where gs: "plan_transforms env ps (simplify_moves env code) = Inr gs"
      by (auto simp: gather_possible_transformations_def live_code_def Let_def split: sum.splits)
    have pf: "planned_for env ps w m = Inr (planned gs)"
      using Some True code gs by (simp add: planned_for_def)
    have lc: "live_code w m = Some code"
      using Some code by (simp add: live_code_def)
    show ?thesis
    proof (cases "planned gs = []")
      case e: True
      with g lc gs have "w' = w\<lparr>ircode_heap := (ircode_heap w)(next_addr w := None),
                                 next_addr := next_addr w + 1\<rparr>" and "mts' = mts"
        by (auto simp: gather_possible_transformations_def Let_def)
      with pf e show ?thesis by simp
    next
      case ne: False
      with g lc gs have "w' = w\<lparr>ircode_heap := (ircode_heap w)(next_addr w \<mapsto> simplify_moves env code),
                                 next_addr := next_addr w + 1\<rparr>"
        and "mts' = mts @ [\<lparr>mt_method = m, code_copy = next_addr w, transforms = planned gs\<rparr>]"
        by (auto simp: gather_possible_transformations_def Let_def)
      with pf ne lc show ?thesis by simp
    qed
  qed
qed

text \<open>A world that differs from \<open>w0\<close> only in code objects made after \<open>w0\<close>.\<close>

definition extends_world :: "world \<Rightarrow> world \<Rightarrow> bool" where
  "extends_world w0 w \<longleftrightarrow>
     dex_methods w = dex_methods w0 \<and> added_methods w = added_methods w0 \<and>
     next_addr w0 \<le> next_addr w \<and>
     (\<forall>a < next_addr w0. ircode_heap w a = ircode_heap w0 a)"

lemma extends_world_refl: "extends_world w w"
  by (simp add: extends_world_def)

lemma extends_world_live_code:
  assumes "wf_world w0" and "extends_world w0 w"
  shows "live_code w m = live_code w0 m"
proof (cases "dex_methods w0 m")
  case None
  with assms(2) show ?thesis by (simp add: live_code_def extends_world_def)
next
  case (Some dm)
  show ?thesis
  proof (cases "code_ptr dm")
    case None
    with Some assms(2) show ?thesis by (simp add: live_code_def get_code_def extends_world_def)
  next
    case (Some a)
    with \<open>dex_methods w0 m = Some dm\<close> assms(1) have "a < next_addr w0"
      using wf_world_below by blast
    with Some \<open>dex_methods w0 m = Some dm\<close> assms(2) show ?thesis
      by (simp add: live_code_def get_code_def extends_world_def)
  qed
qed

lemma extends_world_planned_for:
  assumes "wf_world w0" and "extends_world w0 w"
  shows "planned_for env ps w m = planned_for env ps w0 m"
proof (cases "dex_methods w0 m")
  case None
  with assms(2) show ?thesis by (simp add: planned_for_def extends_world_def)
next
  case (Some dm)
  have "get_code w dm = get_code w0 dm"
    using extends_world_live_code[OF assms, of m] Some assms(2)
    by (simp add: live_code_def extends_world_def)
  with Some assms(2) show ?thesis by (simp add: planned_for_def extends_world_def)
qed

lemma extends_world_wf:
  assumes "wf_world w0" and "extends_world w0 w"
  shows "wf_world w"
  unfolding wf_world_def
proof (intro conjI allI impI)
  fix m dm a
  assume "dex_methods w m = Some dm \<and> code_ptr dm = Some a"
  with assms(2) have "dex_methods w0 m = Some dm \<and> code_ptr dm = Some a"
    by (simp add: extends_world_def)
  then have "a < next_addr w0"
    using wf_world_below[OF assms(1)] by blast
  with assms(2) show "a < next_addr w" by (simp add: extends_world_def)
next
  fix m m' dm dm' a
  assume "dex_methods w m = Some dm \<and> dex_methods w m' = Some dm' \<and>
          code_ptr dm = Some a \<and> code_ptr dm' = Some a"
  with assms(2) have "dex_methods w0 m = Some dm \<and> dex_methods w0 m' = Some dm' \<and>
          code_ptr dm = Some a \<and> code_ptr dm' = Some a"
    by (simp add: extends_world_def)
  then show "m = m'"
    using wf_world_unique[OF assms(1)] by blast
qed


text \<open>The entries that the walk over a schedule appends, without their addresses.\<close>

definition gathered_views ::
  "analysis_env \<Rightarrow> pass_state \<Rightarrow> world \<Rightarrow> dex_method_ref list
   \<Rightarrow> (dex_method_ref \<times> branch_transform list) list" where
  "gathered_views env ps w schedule =
     concat (map (\<lambda>m. case planned_for env ps w m of
                          Inl e \<Rightarrow> []
                        | Inr ts \<Rightarrow> if ts = [] then [] else [(m, ts)]) schedule)"

definition transform_view :: "method_transform \<Rightarrow> dex_method_ref \<times> branch_transform list" where
  "transform_view mt = (mt_method mt, transforms mt)"

lemma gather_phase_Inr:
  assumes "wf_world w0" and "extends_world w0 w"
    and "gather_phase env ps schedule (w, mts) = Inr (w', mts')"
  shows "extends_world w0 w' \<and> next_addr w \<le> next_addr w' \<and>
         (\<forall>a < next_addr w. ircode_heap w' a = ircode_heap w a) \<and>
         (\<forall>m \<in> set schedule. \<exists>ts. planned_for env ps w0 m = Inr ts) \<and>
         (\<exists>new. mts' = mts @ new \<and>
            map transform_view new = gathered_views env ps w0 schedule \<and>
            sorted_wrt (<) (map code_copy new) \<and>
            (\<forall>mt \<in> set new. next_addr w \<le> code_copy mt \<and> code_copy mt < next_addr w' \<and>
               ircode_heap w' (code_copy mt) =
                 map_option (simplify_moves env) (live_code w0 (mt_method mt))))"
  using assms(2,3)
proof (induction schedule arbitrary: w mts)
  case Nil
  then show ?case by (simp add: gathered_views_def)
next
  case (Cons m schedule)
  from Cons.prems(2) obtain w1 mts1 where
    one: "gather_method env ps m (w, mts) = Inr (w1, mts1)"
    and rest: "gather_phase env ps schedule (w1, mts1) = Inr (w', mts')"
    by (auto split: sum.splits)
  from gather_method_Inr[OF one] obtain ts where
    dmeq: "dex_methods w1 = dex_methods w" and ameq: "added_methods w1 = added_methods w"
    and nle: "next_addr w \<le> next_addr w1"
    and heq: "\<forall>a. a \<noteq> next_addr w \<longrightarrow> ircode_heap w1 a = ircode_heap w a"
    and pf: "planned_for env ps w m = Inr ts"
    and upd: "if ts = [] then mts1 = mts
             else mts1 = mts @ [\<lparr>mt_method = m, code_copy = next_addr w, transforms = ts\<rparr>] \<and>
                  next_addr w < next_addr w1 \<and>
                  ircode_heap w1 (next_addr w) = map_option (simplify_moves env) (live_code w m)"
    by blast
  have pf0: "planned_for env ps w0 m = Inr ts"
    using pf extends_world_planned_for[OF assms(1) Cons.prems(1)] by simp
  have lc0: "live_code w m = live_code w0 m"
    by (rule extends_world_live_code[OF assms(1) Cons.prems(1)])
  have ext1: "extends_world w0 w1"
    using Cons.prems(1) dmeq ameq nle heq by (auto simp: extends_world_def)
  from Cons.IH[OF ext1 rest] obtain new where
    ext': "extends_world w0 w'" and nle': "next_addr w1 \<le> next_addr w'"
    and heq': "\<forall>a < next_addr w1. ircode_heap w' a = ircode_heap w1 a"
    and ok: "\<forall>m \<in> set schedule. \<exists>ts. planned_for env ps w0 m = Inr ts"
    and new: "mts' = mts1 @ new"
    and views: "map transform_view new = gathered_views env ps w0 schedule"
    and srt: "sorted_wrt (<) (map code_copy new)"
    and cop: "\<forall>mt \<in> set new. next_addr w1 \<le> code_copy mt \<and> code_copy mt < next_addr w' \<and>
               ircode_heap w' (code_copy mt) =
                 map_option (simplify_moves env) (live_code w0 (mt_method mt))"
    by blast
  have h2: "\<forall>a < next_addr w. ircode_heap w' a = ircode_heap w a"
    using heq heq' nle by auto
  have ok2: "\<forall>m' \<in> set (m # schedule). \<exists>ts. planned_for env ps w0 m' = Inr ts"
    using ok pf0 by auto
  show ?case
  proof (cases "ts = []")
    case True
    with upd have "mts1 = mts" by simp
    moreover have "gathered_views env ps w0 (m # schedule) = gathered_views env ps w0 schedule"
      using pf0 True by (simp add: gathered_views_def)
    moreover have "\<forall>mt \<in> set new. next_addr w \<le> code_copy mt" using cop nle by auto
    ultimately show ?thesis
      using ext' nle nle' h2 ok2 new views srt cop
      by (intro conjI exI[of _ new]) auto
  next
    case False
    let ?mt = "\<lparr>mt_method = m, code_copy = next_addr w, transforms = ts\<rparr>"
    from upd False have m1: "mts1 = mts @ [?mt]" and lt: "next_addr w < next_addr w1"
      and hc: "ircode_heap w1 (next_addr w) = map_option (simplify_moves env) (live_code w m)"
      by simp_all
    have v: "gathered_views env ps w0 (m # schedule) = (m, ts) # gathered_views env ps w0 schedule"
      using pf0 False by (simp add: gathered_views_def)
    have "mts' = mts @ (?mt # new)" using new m1 by simp
    moreover have "map transform_view (?mt # new) = gathered_views env ps w0 (m # schedule)"
      using views v by (simp add: transform_view_def)
    moreover have "sorted_wrt (<) (map code_copy (?mt # new))"
      using srt cop lt by auto
    moreover have "\<forall>mt \<in> set (?mt # new). next_addr w \<le> code_copy mt \<and>
        code_copy mt < next_addr w' \<and>
        ircode_heap w' (code_copy mt) = map_option (simplify_moves env) (live_code w0 (mt_method mt))"
    proof
      fix mt
      assume "mt \<in> set (?mt # new)"
      then consider "mt = ?mt" | "mt \<in> set new" by auto
      then show "next_addr w \<le> code_copy mt \<and> code_copy mt < next_addr w' \<and>
        ircode_heap w' (code_copy mt) = map_option (simplify_moves env) (live_code w0 (mt_method mt))"
      proof cases
        case 1
        with lt nle' heq' hc lc0 show ?thesis by simp
      next
        case 2
        with cop nle show ?thesis by auto
      qed
    qed
    ultimately show ?thesis
      using ext' nle nle' h2 ok2
      by (intro conjI exI[of _ "?mt # new"]) auto
  qed
qed


lemma distinct_candidate_transforms:
  assumes "distinct mts" and "distinct (concat dexes)"
  shows "distinct (candidate_transforms env mts dexes)"
  using assms(2)
proof (induction dexes)
  case Nil
  then show ?case by (simp add: candidate_transforms_def)
next
  case (Cons d ds)
  from Cons.prems have dd: "distinct d" and dds: "distinct (concat ds)"
    and disj: "set d \<inter> set (concat ds) = {}"
    by simp_all
  have "distinct (per_dex_transforms env mts d)"
    using distinct_per_class_concat[OF assms(1) dd] by (simp add: per_dex_transforms_def)
  moreover have "distinct (candidate_transforms env mts ds)"
    using Cons.IH[OF dds] .
  moreover have "set (per_dex_transforms env mts d) \<inter> set (candidate_transforms env mts ds) = {}"
  proof (rule ccontr)
    assume "set (per_dex_transforms env mts d) \<inter> set (candidate_transforms env mts ds) \<noteq> {}"
    then obtain mt where a: "mt \<in> set (per_dex_transforms env mts d)"
      and b: "mt \<in> set (candidate_transforms env mts ds)" by blast
    from a obtain c where c: "c \<in> set d" "type_class_of env (fst (mt_method mt)) = Some c"
      by (auto simp: set_per_dex_transforms)
    from b obtain d' c' where "d' \<in> set ds" "c' \<in> set d'"
      "type_class_of env (fst (mt_method mt)) = Some c'"
      by (auto simp: candidate_transforms_def set_per_dex_transforms)
    with c disj show False by auto
  qed
  ultimately show ?case by (simp add: candidate_transforms_def)
qed

lemma set_candidate_transforms: "set (candidate_transforms env mts dexes) \<subseteq> set mts"
  by (auto simp: candidate_transforms_def set_per_dex_transforms)

lemma map_fst_gathered_views:
  "map fst (gathered_views env ps w schedule) =
     filter (\<lambda>m. case planned_for env ps w m of Inl e \<Rightarrow> False | Inr ts \<Rightarrow> ts \<noteq> []) schedule"
  by (induction schedule) (auto simp: gathered_views_def split: sum.splits)

text \<open>After the gathering phase the candidates own their copies.\<close>

lemma gathered_owned_copies:
  assumes "wf_world w" and "distinct schedule" and "distinct (concat dexes)"
    and "gather_phase env ps schedule (w, []) = Inr (w1, mts)"
  shows "wf_world w1 \<and> owned_copies w1 (candidate_transforms env mts dexes)"
proof -
  from gather_phase_Inr[OF assms(1) extends_world_refl assms(4)] have
    ext: "extends_world w w1"
    and views: "map transform_view mts = gathered_views env ps w schedule"
    and srt: "sorted_wrt (<) (map code_copy mts)"
    and cop: "\<forall>mt \<in> set mts. next_addr w \<le> code_copy mt \<and> code_copy mt < next_addr w1"
    by auto
  have wf1: "wf_world w1" using extends_world_wf[OF assms(1) ext] .
  have dc: "distinct (map code_copy mts)"
    using srt by (simp add: strict_sorted_iff)
  then have dm: "distinct mts" by (rule distinct_map[THEN iffD1, THEN conjunct1])
  have "map mt_method mts = map fst (map transform_view mts)"
    by (simp add: transform_view_def comp_def)
  then have "map mt_method mts = map fst (gathered_views env ps w schedule)"
    using views by simp
  then have dmm: "distinct (map mt_method mts)"
    using assms(2) by (simp add: map_fst_gathered_views)
  let ?c = "candidate_transforms env mts dexes"
  have dcand: "distinct ?c" using distinct_candidate_transforms[OF dm assms(3)] .
  have sub: "set ?c \<subseteq> set mts" by (rule set_candidate_transforms)
  have "inj_on code_copy (set mts)" "inj_on mt_method (set mts)"
    using dc dmm by (simp_all add: distinct_map)
  with sub have "inj_on code_copy (set ?c)" "inj_on mt_method (set ?c)"
    by (meson inj_on_subset)+
  with dcand have d1: "distinct (map code_copy ?c)" and d2: "distinct (map mt_method ?c)"
    by (simp_all add: distinct_map)
  have nl: "\<forall>mt \<in> set ?c. not_live w1 (code_copy mt) \<and> code_copy mt < next_addr w1"
  proof
    fix mt
    assume "mt \<in> set ?c"
    with sub cop have ge: "next_addr w \<le> code_copy mt" and lt: "code_copy mt < next_addr w1"
      by auto
    have "not_live w1 (code_copy mt)"
    proof (rule not_liveI)
      fix m dm
      assume "dex_methods w1 m = Some dm"
      with ext have d: "dex_methods w m = Some dm" by (simp add: extends_world_def)
      show "code_ptr dm \<noteq> Some (code_copy mt)"
      proof
        assume "code_ptr dm = Some (code_copy mt)"
        with d assms(1) have "code_copy mt < next_addr w" using wf_world_below by blast
        with ge show False by simp
      qed
    qed
    with lt show "not_live w1 (code_copy mt) \<and> code_copy mt < next_addr w1" by simp
  qed
  from wf1 d1 d2 nl show ?thesis by (simp add: owned_copies_def)
qed

text \<open>
  Claim C1. The gathering phase leaves every method's code pointer and live code as they
  were: each planned entry holds a code object made during the phase, which is the code of
  no method and holds the simplified snapshot of the method's code. After an apply phase
  that returns, a method whose entry was not applied (skipped by the cap, or of no dex) has
  the code pointer and the live code it had before the pass, and a method whose entry was
  applied has its copy installed as its code.
\<close>

theorem edits_on_copy_swap_at_end:
  assumes "wf_world w" and "distinct schedule" and "distinct (concat dexes)"
    and "gather_phase env ps schedule (w, []) = Inr (w1, mts)"
    and "apply_phase env ps cap mts dexes (stats, w1) = Inr (stats', w2)"
  shows "(\<forall>m. dex_methods w1 m = dex_methods w m \<and> live_code w1 m = live_code w m) \<and>
         (\<forall>mt \<in> set mts.
            next_addr w \<le> code_copy mt \<and> not_live w (code_copy mt) \<and>
            ircode_heap w1 (code_copy mt) =
              map_option (simplify_moves env) (live_code w (mt_method mt))) \<and>
         (\<forall>m. m \<notin> mt_method ` set (applied_transforms env cap mts dexes) \<longrightarrow>
            dex_methods w2 m = dex_methods w m \<and> live_code w2 m = live_code w m) \<and>
         (\<forall>mt \<in> set (applied_transforms env cap mts dexes).
            \<exists>dm. dex_methods w2 (mt_method mt) = Some dm \<and> code_ptr dm = Some (code_copy mt))"
proof -
  from gather_phase_Inr[OF assms(1) extends_world_refl assms(4)] have
    ext: "extends_world w w1"
    and cop: "\<forall>mt \<in> set mts. next_addr w \<le> code_copy mt \<and> code_copy mt < next_addr w1 \<and>
               ircode_heap w1 (code_copy mt) =
                 map_option (simplify_moves env) (live_code w (mt_method mt))"
    by auto
  have g: "\<forall>m. dex_methods w1 m = dex_methods w m \<and> live_code w1 m = live_code w m"
    using ext extends_world_live_code[OF assms(1) ext] by (simp add: extends_world_def)
  have c: "\<forall>mt \<in> set mts.
            next_addr w \<le> code_copy mt \<and> not_live w (code_copy mt) \<and>
            ircode_heap w1 (code_copy mt) =
              map_option (simplify_moves env) (live_code w (mt_method mt))"
  proof
    fix mt
    assume m: "mt \<in> set mts"
    with cop have ge: "next_addr w \<le> code_copy mt" by blast
    have "not_live w (code_copy mt)"
    proof (rule not_liveI)
      fix m dm
      assume d: "dex_methods w m = Some dm"
      show "code_ptr dm \<noteq> Some (code_copy mt)"
      proof
        assume "code_ptr dm = Some (code_copy mt)"
        with d assms(1) have "code_copy mt < next_addr w" using wf_world_below by blast
        with ge show False by simp
      qed
    qed
    with cop m show "next_addr w \<le> code_copy mt \<and> not_live w (code_copy mt) \<and>
            ircode_heap w1 (code_copy mt) =
              map_option (simplify_moves env) (live_code w (mt_method mt))"
      by blast
  qed
  from gathered_owned_copies[OF assms(1-4)] have wf1: "wf_world w1"
    and own: "owned_copies w1 (candidate_transforms env mts dexes)" by simp_all
  from apply_phase_frame[OF wf1 own assms(5)] have
    oth: "\<forall>m'. m' \<notin> mt_method ` set (applied_transforms env cap mts dexes) \<longrightarrow>
            dex_methods w2 m' = dex_methods w1 m' \<and> live_code w2 m' = live_code w1 m'"
    and ins: "\<forall>mt \<in> set (applied_transforms env cap mts dexes).
            \<exists>dm. dex_methods w2 (mt_method mt) = Some dm \<and> code_ptr dm = Some (code_copy mt)"
    by blast+
  have a: "\<forall>m. m \<notin> mt_method ` set (applied_transforms env cap mts dexes) \<longrightarrow>
            dex_methods w2 m = dex_methods w m \<and> live_code w2 m = live_code w m"
  proof (intro allI impI)
    fix m
    assume "m \<notin> mt_method ` set (applied_transforms env cap mts dexes)"
    with oth have "dex_methods w2 m = dex_methods w1 m \<and> live_code w2 m = live_code w1 m"
      by blast
    moreover from g have "dex_methods w1 m = dex_methods w m \<and> live_code w1 m = live_code w m"
      by blast
    ultimately show "dex_methods w2 m = dex_methods w m \<and> live_code w2 m = live_code w m"
      by simp
  qed
  from g c a ins show ?thesis by blast
qed


lemma wf_world_example: "wf_world example_world"
  unfolding wf_world_def
  by (auto simp: example_world_def foo_bar_def foo_baz_def foo_nop_def split: if_splits)

lemma should_consider_if_chain_min2:
  "should_consider_method ps_min2 \<lparr>no_optimizations = False, method_code = Some if_chain_cfg\<rparr>"
  by (simp add: should_consider_method_def ps_min2_def if_chain_cfg_def
      num_const_class_opcodes_def cfg_instructions_def ends_in_if_statment_def is_if_eq_def
      is_if_ne_def new_instruction_def const_class_then_if_def const_class_then_return_def)

lemma planned_if_chain_min2:
  "plan_transforms example_env ps_min2 (simplify_moves example_env if_chain_cfg) =
     Inr \<lparr>blocks_considered = {0, 1, 2, 3, 4}, planned = [if_chain_transform],
          finder_runs = [0]\<rparr>"
  using plan_if_chain_min2 by (simp add: example_env_def if_chain_transform_def)

lemma gather_phase_example:
  "gather_phase example_env ps_min2 example_schedule (example_world, []) =
     Inr (gathered_world, gathered_transforms)"
proof -
  let ?w1 = "example_world\<lparr>ircode_heap := (ircode_heap example_world)(2 \<mapsto> if_chain_cfg),
                             next_addr := 3\<rparr>"
  have ne: "foo_baz \<noteq> foo_bar" "foo_baz \<noteq> foo_nop" "foo_nop \<noteq> foo_bar"
    by (simp_all add: foo_baz_def foo_bar_def foo_nop_def)
  have sm: "simplify_moves example_env if_chain_cfg = if_chain_cfg"
    by (simp add: example_env_def)
  have 1: "gather_method example_env ps_min2 foo_baz (example_world, []) = Inr (?w1, [baz_transform])"
    using ne planned_if_chain_min2
    by (simp add: gather_method_def gather_possible_transformations_def example_world_def
        get_code_def live_code_def should_consider_if_chain_min2 Let_def sm baz_transform_def)
  have 2: "gather_method example_env ps_min2 foo_nop (?w1, [baz_transform]) =
      Inr (?w1, [baz_transform])"
    using ne
    by (simp add: gather_method_def example_world_def get_code_def should_consider_method_def)
  have 3: "gather_method example_env ps_min2 foo_bar (?w1, [baz_transform]) =
      Inr (gathered_world, gathered_transforms)"
    using ne planned_if_chain_min2
    by (simp add: gather_method_def gather_possible_transformations_def example_world_def
        get_code_def live_code_def should_consider_if_chain_min2 Let_def sm baz_transform_def
        bar_transform_def gathered_world_def gathered_transforms_def)
  from 1 2 3 show ?thesis by (simp add: example_schedule_def)
qed

text \<open>A cap of one transform per dex.\<close>

definition example_cap :: nat where
  "example_cap = 1"

lemma select_under_cap_example:
  "select_under_cap example_cap 0 (rev (per_dex_transforms example_env gathered_transforms [foo_class])) =
     [baz_transform]"
  by (simp add: per_dex_transforms_example example_cap_def)
    (simp add: baz_transform_def bar_transform_def)

lemma applied_transforms_example:
  "applied_transforms example_env example_cap gathered_transforms [[foo_class]] = [baz_transform]"
  unfolding applied_transforms_def using select_under_cap_example by simp

lemma apply_phase_example:
  "apply_phase example_env ps_min2 example_cap gathered_transforms [[foo_class]] (empty_stats, gathered_world) =
     Inr (\<lparr>methods_transformed = 1, const_class_instructions_removed = 1, string_tree_size = 4\<rparr>,
          installed example_env gathered_world baz_transform
            \<lparr>rstate_no_optimizations = False, code_ptr = Some 1\<rparr> (pruned_if_chain_cfg 0)
            [create_string_getter_method ''LFoo;'' 0 ''A;B;''])"
  using select_under_cap_example
  by (simp add: apply_transforms_dex_def apply_dex_loop_selected
      apply_transform_if_chain[OF baz_in_gathered_world] stats_add_def empty_stats_def)

theorem edits_on_copy_swap_at_end_witness:
  "wf_world example_world \<and> distinct example_schedule \<and> distinct (concat [[foo_class]]) \<and>
   gather_phase example_env ps_min2 example_schedule (example_world, []) =
     Inr (gathered_world, gathered_transforms) \<and>
   applied_transforms example_env example_cap gathered_transforms [[foo_class]] = [baz_transform] \<and>
   live_code gathered_world foo_baz = live_code example_world foo_baz \<and>
   ircode_heap gathered_world (code_copy bar_transform) = Some if_chain_cfg \<and>
   (\<exists>stats' w2.
      apply_phase example_env ps_min2 example_cap gathered_transforms [[foo_class]]
        (empty_stats, gathered_world) = Inr (stats', w2) \<and>
      live_code w2 foo_bar = live_code example_world foo_bar \<and>
      live_code w2 foo_nop = live_code example_world foo_nop \<and>
      (\<exists>dm. dex_methods w2 foo_baz = Some dm \<and> code_ptr dm = Some (code_copy baz_transform)))"
proof -
  let ?w2 = "installed example_env gathered_world baz_transform
            \<lparr>rstate_no_optimizations = False, code_ptr = Some 1\<rparr> (pruned_if_chain_cfg 0)
            [create_string_getter_method ''LFoo;'' 0 ''A;B;'']"
  let ?app = "applied_transforms example_env example_cap gathered_transforms [[foo_class]]"
  have ds: "distinct example_schedule"
    by (simp add: example_schedule_def foo_baz_def foo_bar_def foo_nop_def)
  have dd: "distinct (concat [[foo_class]])" by simp
  from edits_on_copy_swap_at_end[OF wf_world_example ds dd gather_phase_example
      apply_phase_example]
  have g: "\<forall>m. dex_methods gathered_world m = dex_methods example_world m \<and>
              live_code gathered_world m = live_code example_world m"
    and c: "\<forall>mt \<in> set gathered_transforms.
            next_addr example_world \<le> code_copy mt \<and> not_live example_world (code_copy mt) \<and>
            ircode_heap gathered_world (code_copy mt) =
              map_option (simplify_moves example_env) (live_code example_world (mt_method mt))"
    and a: "\<forall>m. m \<notin> mt_method ` set ?app \<longrightarrow>
            dex_methods ?w2 m = dex_methods example_world m \<and>
            live_code ?w2 m = live_code example_world m"
    and i: "\<forall>mt \<in> set ?app.
            \<exists>dm. dex_methods ?w2 (mt_method mt) = Some dm \<and> code_ptr dm = Some (code_copy mt)"
    by blast+
  have mb: "mt_method baz_transform = foo_baz" by (simp add: baz_transform_def)
  have nb: "foo_bar \<notin> mt_method ` set ?app" and nn: "foo_nop \<notin> mt_method ` set ?app"
    unfolding applied_transforms_example
    by (simp_all add: mb foo_baz_def foo_bar_def foo_nop_def)
  from g have 1: "live_code gathered_world foo_baz = live_code example_world foo_baz" by blast
  from a nb have 2: "live_code ?w2 foo_bar = live_code example_world foo_bar" by blast
  from a nn have 3: "live_code ?w2 foo_nop = live_code example_world foo_nop" by blast
  have "baz_transform \<in> set ?app" unfolding applied_transforms_example by simp
  with i have 4: "\<exists>dm. dex_methods ?w2 foo_baz = Some dm \<and> code_ptr dm = Some (code_copy baz_transform)"
    unfolding mb[symmetric] by blast
  have "bar_transform \<in> set gathered_transforms" by (simp add: gathered_transforms_def)
  with c have "ircode_heap gathered_world (code_copy bar_transform) =
      map_option (simplify_moves example_env) (live_code example_world (mt_method bar_transform))"
    by blast
  then have 5: "ircode_heap gathered_world (code_copy bar_transform) = Some if_chain_cfg"
    by (simp add: bar_transform_def live_code_def get_code_def example_world_def example_env_def
        foo_bar_def foo_baz_def foo_nop_def)
  from apply_phase_example 2 3 4 have 6: "\<exists>stats' w2.
      apply_phase example_env ps_min2 example_cap gathered_transforms [[foo_class]]
        (empty_stats, gathered_world) = Inr (stats', w2) \<and>
      live_code w2 foo_bar = live_code example_world foo_bar \<and>
      live_code w2 foo_nop = live_code example_world foo_nop \<and>
      (\<exists>dm. dex_methods w2 foo_baz = Some dm \<and> code_ptr dm = Some (code_copy baz_transform))"
    by blast
  show ?thesis
    by (intro conjI) (fact wf_world_example ds dd gather_phase_example
        applied_transforms_example 1 5 6)+
qed


section \<open>References reserved and references created\<close>







text \<open>Every instruction of a graph has a property.\<close>

definition insns_ok :: "(ir_instruction \<Rightarrow> bool) \<Rightarrow> control_flow_graph \<Rightarrow> bool" where
  "insns_ok P cfg \<longleftrightarrow> list_all P (cfg_instructions cfg)"

text \<open>The operands of an instruction are among the given methods and types.\<close>

definition insn_refs_in :: "dex_method_ref set \<Rightarrow> dex_type set \<Rightarrow> ir_instruction \<Rightarrow> bool" where
  "insn_refs_in M T i \<longleftrightarrow>
     (\<forall>m. insn_method i = Some m \<longrightarrow> m \<in> M) \<and>
     (\<forall>t. insn_type i = Some t \<longrightarrow> t \<in> T)"



lemma insn_refs_in_mono:
  "insn_refs_in M T i \<Longrightarrow> M \<subseteq> M' \<Longrightarrow> T \<subseteq> T' \<Longrightarrow> insn_refs_in M' T' i"
  unfolding insn_refs_in_def by blast

lemma insns_ok_mono:
  "insns_ok P cfg \<Longrightarrow> (\<And>i. P i \<Longrightarrow> Q i) \<Longrightarrow> insns_ok Q cfg"
  by (auto simp: insns_ok_def list_all_iff)


lemma insns_ok_allocate_temp [simp]:
  "insns_ok P (snd (allocate_temp cfg)) = insns_ok P cfg"
  by (simp add: insns_ok_def cfg_instructions_def allocate_temp_def)

lemma insns_ok_create_block [simp]:
  "insns_ok P (snd (create_block cfg)) = insns_ok P cfg"
  by (simp add: insns_ok_def cfg_instructions_def create_block_def Let_def)



















lemma added_methods_installed:
  "added_methods (installed env w mt dm cfg getters) =
     added_methods w @ (case type_class_of env (fst (mt_method mt)) of
                          None \<Rightarrow> [] | Some c \<Rightarrow> map (Pair c) getters)"
  by (simp add: installed_def set_code_def)






lemma reserved_refs_incr_metric [simp]:
  "reserved_refs (incr_metric mgr key v) = reserved_refs mgr"
  by (simp add: incr_metric_def)














section \<open>Independence of the schedule\<close>

lemma gather_phase_total:
  assumes "wf_world w0" and "extends_world w0 w"
    and "\<forall>m \<in> set schedule. \<exists>ts. planned_for env ps w0 m = Inr ts"
  shows "\<exists>r. gather_phase env ps schedule (w, mts) = Inr r"
  using assms(2,3)
proof (induction schedule arbitrary: w mts)
  case Nil
  then show ?case by simp
next
  case (Cons m schedule)
  from Cons.prems(2) obtain ts where "planned_for env ps w0 m = Inr ts" by auto
  with extends_world_planned_for[OF assms(1) Cons.prems(1)]
  have p: "planned_for env ps w m = Inr ts" by simp
  obtain w' mts' where g: "gather_method env ps m (w, mts) = Inr (w', mts')"
  proof (cases "gather_method env ps m (w, mts)")
    case (Inl e)
    with gather_method_Inl[of env ps m w mts e] p show ?thesis by simp
  next
    case (Inr r)
    with that show ?thesis by (cases r) auto
  qed
  then have "gather_phase env ps [m] (w, mts) = Inr (w', mts')" by simp
  from gather_phase_Inr[OF assms(1) Cons.prems(1) this]
  have "extends_world w0 w'" by blast
  from Cons.IH[OF this] Cons.prems(2) g show ?case by simp
qed

lemma mset_concat_map_cong:
  assumes "mset xs = mset ys"
  shows "mset (concat (map f xs)) = mset (concat (map f ys))"
proof -
  have "mset (concat (map f zs)) = sum_mset (image_mset (\<lambda>x. mset (f x)) (mset zs))" for zs
    by (induction zs) simp_all
  with assms show ?thesis by simp
qed

lemma mset_gathered_views:
  assumes "mset s1 = mset s2"
  shows "mset (gathered_views env ps w s1) = mset (gathered_views env ps w s2)"
  unfolding gathered_views_def using assms by (rule mset_concat_map_cong)

lemma distinct_gathered_views:
  assumes "distinct schedule"
  shows "distinct (map fst (gathered_views env ps w schedule))"
  using assms by (simp add: map_fst_gathered_views)

text \<open>The entries of a dex, without their addresses.\<close>

lemma map_insort_key_view:
  "map transform_view (insort_key mt_method x xs) =
     insort_key fst (transform_view x) (map transform_view xs)"
  by (induction xs) (auto simp: transform_view_def)

lemma map_sort_key_view:
  "map transform_view (sort_key mt_method xs) = sort_key fst (map transform_view xs)"
  by (induction xs) (simp_all add: map_insort_key_view)

lemma filter_same_key:
  fixes zs :: "('k \<times> 'v) list"
  assumes "\<forall>x \<in> set zs. fst x = fst k \<longrightarrow> x = k"
  shows "filter (\<lambda>x. fst k = fst x) zs = replicate (count (mset zs) k) k"
  using assms by (induction zs) auto

lemma sort_key_unique:
  fixes xs ys :: "('k::linorder \<times> 'v) list"
  assumes "mset xs = mset ys" and "\<forall>x \<in> set xs. \<forall>y \<in> set xs. fst x = fst y \<longrightarrow> x = y"
  shows "sort_key fst xs = sort_key fst ys"
proof (rule properties_for_sort_key)
  show "mset (sort_key fst ys) = mset xs" using assms(1) by simp
  show "sorted (map fst (sort_key fst ys))" by simp
  fix k
  assume "k \<in> set (sort_key fst ys)"
  then have ky: "k \<in> set ys" by simp
  from assms(1) have se: "set xs = set ys" by (rule mset_eq_setD)
  with ky have kx: "k \<in> set xs" by simp
  from assms(2) kx have a: "\<forall>x \<in> set xs. fst x = fst k \<longrightarrow> x = k" by blast
  with se have b: "\<forall>x \<in> set (sort_key fst ys). fst x = fst k \<longrightarrow> x = k" by simp
  from filter_same_key[OF a] filter_same_key[OF b] assms(1)
  show "filter (\<lambda>x. fst k = fst x) (sort_key fst ys) = filter (\<lambda>x. fst k = fst x) xs"
    by simp
qed

text \<open>The candidates of a dex, as a function of the views of the shared vector.\<close>

definition class_views ::
  "analysis_env \<Rightarrow> (dex_method_ref \<times> branch_transform list) list \<Rightarrow> dex_class list
   \<Rightarrow> (dex_method_ref \<times> branch_transform list) list" where
  "class_views env views dex_file =
     concat (map (\<lambda>c. filter (\<lambda>v. type_class_of env (fst (fst v)) = Some c) views) dex_file)"

lemma map_view_per_class:
  "map transform_view (concat (map (per_class_transforms env mts) dex_file)) =
     class_views env (map transform_view mts) dex_file"
proof -
  have "map transform_view (per_class_transforms env mts c) =
        filter (\<lambda>v. type_class_of env (fst (fst v)) = Some c) (map transform_view mts)" for c
    by (simp add: per_class_transforms_def filter_map comp_def transform_view_def)
  then show ?thesis
    by (simp add: class_views_def map_concat comp_def)
qed

lemma mset_class_views:
  assumes "mset v1 = mset v2"
  shows "mset (class_views env v1 dex_file) = mset (class_views env v2 dex_file)"
proof -
  have "mset (filter P v1) = mset (filter P v2)" for P
    using assms by (metis mset_filter)
  then show ?thesis
    by (induction dex_file) (simp_all add: class_views_def)
qed

lemma set_class_views: "set (class_views env v dex_file) \<subseteq> set v"
  by (auto simp: class_views_def)

lemma per_dex_views:
  assumes "mset (map transform_view mts1) = mset (map transform_view mts2)"
    and "distinct (map mt_method mts1)"
  shows "map transform_view (per_dex_transforms env mts1 dex_file) =
         map transform_view (per_dex_transforms env mts2 dex_file)"
proof -
  have inj: "\<forall>x \<in> set (map transform_view mts1). \<forall>y \<in> set (map transform_view mts1).
      fst x = fst y \<longrightarrow> x = y"
  proof (intro ballI impI)
    fix x y
    assume "x \<in> set (map transform_view mts1)" "y \<in> set (map transform_view mts1)"
      and e: "fst x = fst y"
    then obtain a b where ab: "a \<in> set mts1" "b \<in> set mts1"
      "x = transform_view a" "y = transform_view b" by auto
    with e have "mt_method a = mt_method b" by (simp add: transform_view_def)
    with assms(2) ab(1,2) have "a = b" by (auto simp: distinct_map inj_on_def)
    with ab show "x = y" by simp
  qed
  moreover have "set (class_views env (map transform_view mts1) dex_file) \<subseteq>
      set (map transform_view mts1)"
    by (rule set_class_views)
  ultimately have "\<forall>x \<in> set (class_views env (map transform_view mts1) dex_file).
        \<forall>y \<in> set (class_views env (map transform_view mts1) dex_file). fst x = fst y \<longrightarrow> x = y"
    by blast
  from sort_key_unique[OF mset_class_views[OF assms(1)] this]
  show ?thesis
    by (simp add: per_dex_transforms_def map_sort_key_view map_view_per_class)
qed

lemma select_views:
  assumes "map transform_view xs = map transform_view ys"
  shows "map transform_view (select_under_cap cap n xs) =
         map transform_view (select_under_cap cap n ys)"
  using assms
proof (induction xs arbitrary: ys n)
  case Nil
  then show ?case by simp
next
  case (Cons x xs)
  then obtain y ys' where ys: "ys = y # ys'" and v: "transform_view x = transform_view y"
    and r: "map transform_view xs = map transform_view ys'"
    by (cases ys) auto
  from v have "length (transforms x) = length (transforms y)"
    by (simp add: transform_view_def)
  with Cons.IH[OF r] v show ?case by (simp add: ys)
qed

text \<open>
  Two worlds that hold the same program: every method has the same flag and the same code,
  and the same methods have been added. Two entries that are the same but for the address
  of the copy.
\<close>

definition same_program :: "world \<Rightarrow> world \<Rightarrow> bool" where
  "same_program w1 w2 \<longleftrightarrow>
     (\<forall>m. live_code w1 m = live_code w2 m \<and>
          map_option rstate_no_optimizations (dex_methods w1 m) =
          map_option rstate_no_optimizations (dex_methods w2 m)) \<and>
     added_methods w1 = added_methods w2"

definition entry_rel :: "world \<Rightarrow> world \<Rightarrow> method_transform \<Rightarrow> method_transform \<Rightarrow> bool" where
  "entry_rel w1 w2 a b \<longleftrightarrow>
     transform_view a = transform_view b \<and>
     ircode_heap w1 (code_copy a) = ircode_heap w2 (code_copy b)"

lemma same_programD:
  "same_program w1 w2 \<Longrightarrow> live_code w1 m = live_code w2 m"
  "same_program w1 w2 \<Longrightarrow> map_option rstate_no_optimizations (dex_methods w1 m) =
     map_option rstate_no_optimizations (dex_methods w2 m)"
  "same_program w1 w2 \<Longrightarrow> added_methods w1 = added_methods w2"
  unfolding same_program_def by blast+

lemma apply_transform_sim:
  assumes "entry_rel w1 w2 mt1 mt2"
    and "dex_methods w2 (mt_method mt2) \<noteq> None"
    and "apply_transform env ps mt1 n w1 = Inr (result, w1')"
  shows "\<exists>cfg getters dm1 dm2.
           dex_methods w1 (mt_method mt1) = Some dm1 \<and>
           dex_methods w2 (mt_method mt2) = Some dm2 \<and>
           w1' = installed env w1 mt1 dm1 cfg getters \<and>
           apply_transform env ps mt2 n w2 = Inr (result, installed env w2 mt2 dm2 cfg getters)"
proof -
  from assms(1) have m: "mt_method mt2 = mt_method mt1" and t: "transforms mt2 = transforms mt1"
    and h: "ircode_heap w2 (code_copy mt2) = ircode_heap w1 (code_copy mt1)"
    by (simp_all add: entry_rel_def transform_view_def)
  from assms(2) obtain dm2 where d2: "dex_methods w2 (mt_method mt1) = Some dm2"
    unfolding m by blast
  from apply_transform_Inr[OF assms(3)] obtain cfg0 cfg1 getters sz dm1 where
    h1: "ircode_heap w1 (code_copy mt1) = Some cfg0"
    and a: "apply_branch_transforms env ps (fst (mt_method mt1))
             (type_class_of env (fst (mt_method mt1))) cfg0 n [] 0 (transforms mt1) =
             Inr (cfg1, getters, sz)"
    and d1: "dex_methods w1 (mt_method mt1) = Some dm1"
    and r: "result = \<lparr>methods_transformed = 1,
                     const_class_instructions_removed =
                       num_const_class_opcodes cfg0 -
                       num_const_class_opcodes (remove_unreachable_blocks cfg1),
                     string_tree_size = sz\<rparr>"
    and w1': "w1' = installed env w1 mt1 dm1 (remove_unreachable_blocks cfg1) getters"
    by blast
  have "apply_transform env ps mt2 n w2 =
        Inr (result, installed env w2 mt2 dm2 (remove_unreachable_blocks cfg1) getters)"
    by (simp add: apply_transform_def installed_def Let_def m t h h1 a d2 r)
  with d1 d2 w1' m show ?thesis by auto
qed

lemma installed_same_program:
  assumes "wf_world w1" and "wf_world w2" and "same_program w1 w2"
    and "mt_method mt2 = mt_method mt1"
    and "dex_methods w1 (mt_method mt1) = Some dm1"
    and "dex_methods w2 (mt_method mt2) = Some dm2"
    and "not_live w1 (code_copy mt1)" and "not_live w2 (code_copy mt2)"
  shows "same_program (installed env w1 mt1 dm1 cfg getters)
           (installed env w2 mt2 dm2 cfg getters)"
proof -
  let ?a = "installed env w1 mt1 dm1 cfg getters"
  let ?b = "installed env w2 mt2 dm2 cfg getters"
  from same_programD(2)[OF assms(3), of "mt_method mt1"] assms(4,5,6)
  have rs: "rstate_no_optimizations dm1 = rstate_no_optimizations dm2" by simp
  have "live_code ?a m = live_code ?b m \<and>
        map_option rstate_no_optimizations (dex_methods ?a m) =
        map_option rstate_no_optimizations (dex_methods ?b m)" for m
  proof (cases "m = mt_method mt1")
    case True
    from installed_this_method[OF assms(5,7), of env cfg getters]
      installed_this_method[OF assms(6,8), of env cfg getters] rs
    show ?thesis unfolding True assms(4) by simp
  next
    case False
    then have ne2: "m \<noteq> mt_method mt2" by (simp add: assms(4))
    from installed_other_method[OF assms(1,5,7) False, of env cfg getters]
      installed_other_method[OF assms(2,6,8) ne2, of env cfg getters]
      same_programD(1,2)[OF assms(3), of m]
    show ?thesis by simp
  qed
  moreover have "added_methods ?a = added_methods ?b"
    using same_programD(3)[OF assms(3)] by (simp add: added_methods_installed assms(4))
  ultimately show ?thesis unfolding same_program_def by blast
qed

lemma apply_selected_sim:
  assumes "wf_world w1" and "wf_world w2" and "same_program w1 w2"
    and "owned_copies w1 xs1" and "owned_copies w2 xs2"
    and "list_all2 (entry_rel w1 w2) xs1 xs2"
    and "apply_selected env ps xs1 n (stats, w1) = Inr (stats', w1')"
  shows "\<exists>w2'. apply_selected env ps xs2 n (stats, w2) = Inr (stats', w2') \<and>
           same_program w1' w2'"
  using assms
proof (induction xs1 arbitrary: xs2 n stats w1 w2)
  case Nil
  then show ?case by auto
next
  case (Cons a t1)
  from Cons.prems(6) obtain b t2 where xs2: "xs2 = b # t2" and ab: "entry_rel w1 w2 a b"
    and tt: "list_all2 (entry_rel w1 w2) t1 t2"
    by (auto simp: list_all2_Cons1)
  from ab have m: "mt_method b = mt_method a" and t: "transforms b = transforms a"
    by (simp_all add: entry_rel_def transform_view_def)
  from Cons.prems(7) obtain result w1a where
    one: "apply_transform env ps a n w1 = Inr (result, w1a)"
    and rest: "apply_selected env ps t1 (n + length (transforms a)) (stats_add stats result, w1a) =
                 Inr (stats', w1')"
    by (auto split: sum.splits)
  from apply_transform_Inr[OF one] obtain dm1' where "dex_methods w1 (mt_method a) = Some dm1'"
    by blast
  with same_programD(2)[OF Cons.prems(3), of "mt_method a"]
  have "dex_methods w2 (mt_method b) \<noteq> None"
    unfolding m by (cases "dex_methods w2 (mt_method a)") auto
  from apply_transform_sim[OF ab this one] obtain cfg getters dm1 dm2 where
    d1: "dex_methods w1 (mt_method a) = Some dm1"
    and d2: "dex_methods w2 (mt_method b) = Some dm2"
    and w1a: "w1a = installed env w1 a dm1 cfg getters"
    and two: "apply_transform env ps b n w2 = Inr (result, installed env w2 b dm2 cfg getters)"
    by blast
  let ?w2a = "installed env w2 b dm2 cfg getters"
  from Cons.prems(4) have nl1: "not_live w1 (code_copy a)" and lt1: "code_copy a < next_addr w1"
    and dc1: "code_copy a \<notin> code_copy ` set t1"
    and o1: "distinct (map code_copy t1)" "distinct (map mt_method t1)"
    and p1: "\<forall>mt' \<in> set t1. not_live w1 (code_copy mt') \<and> code_copy mt' < next_addr w1"
    by (auto simp: owned_copies_def)
  from Cons.prems(5) have nl2: "not_live w2 (code_copy b)" and lt2: "code_copy b < next_addr w2"
    and dc2: "code_copy b \<notin> code_copy ` set t2"
    and o2: "distinct (map code_copy t2)" "distinct (map mt_method t2)"
    and p2: "\<forall>mt' \<in> set t2. not_live w2 (code_copy mt') \<and> code_copy mt' < next_addr w2"
    unfolding xs2 by (auto simp: owned_copies_def)
  have wf1: "wf_world w1a" and n1: "next_addr w1a = next_addr w1"
    unfolding w1a using installed_wf_world[OF Cons.prems(1) d1 nl1 lt1] by simp_all
  have wf2: "wf_world ?w2a" and n2: "next_addr ?w2a = next_addr w2"
    using installed_wf_world[OF Cons.prems(2) d2 nl2 lt2] by simp_all
  have sp: "same_program w1a ?w2a"
    unfolding w1a using Cons.prems(1,2,3) m d1 d2 nl1 nl2 by (rule installed_same_program)
  have k1: "not_live w1a (code_copy x) \<and> ircode_heap w1a (code_copy x) = ircode_heap w1 (code_copy x)"
    if "x \<in> set t1" for x
  proof -
    from that dc1 have ne: "code_copy x \<noteq> code_copy a" by (metis imageI)
    from that p1 have "not_live w1 (code_copy x)" by blast
    from installed_pending_copy[OF d1 this ne] show ?thesis unfolding w1a by blast
  qed
  have k2: "not_live ?w2a (code_copy y) \<and> ircode_heap ?w2a (code_copy y) = ircode_heap w2 (code_copy y)"
    if "y \<in> set t2" for y
  proof -
    from that dc2 have ne: "code_copy y \<noteq> code_copy b" by (metis imageI)
    from that p2 have "not_live w2 (code_copy y)" by blast
    from installed_pending_copy[OF d2 this ne] show ?thesis by blast
  qed
  have own1: "owned_copies w1a t1"
    unfolding owned_copies_def using o1 p1 k1 n1 by auto
  have own2: "owned_copies ?w2a t2"
    unfolding owned_copies_def using o2 p2 k2 n2 by auto
  have tt': "list_all2 (entry_rel w1a ?w2a) t1 t2"
    using tt
  proof (rule list.rel_mono_strong)
    fix x y
    assume "x \<in> set t1" "y \<in> set t2" "entry_rel w1 w2 x y"
    with k1 k2 show "entry_rel w1a ?w2a x y" by (simp add: entry_rel_def)
  qed
  from Cons.IH[OF wf1 wf2 sp own1 own2 tt' rest] obtain w2' where
    "apply_selected env ps t2 (n + length (transforms a)) (stats_add stats result, ?w2a) =
       Inr (stats', w2')" and "same_program w1' w2'"
    by blast
  with two t show ?case unfolding xs2 by simp
qed

lemma select_rel:
  assumes "list_all2 (entry_rel w1 w2) xs ys"
  shows "list_all2 (entry_rel w1 w2) (select_under_cap cap n xs) (select_under_cap cap n ys)"
  using assms
proof (induction xs arbitrary: ys n)
  case Nil
  then show ?case by simp
next
  case (Cons x xs)
  then obtain y ys' where ys: "ys = y # ys'" and xy: "entry_rel w1 w2 x y"
    and r: "list_all2 (entry_rel w1 w2) xs ys'"
    by (auto simp: list_all2_Cons1)
  from xy have "length (transforms x) = length (transforms y)"
    by (simp add: entry_rel_def transform_view_def)
  with Cons.IH[OF r] xy show ?case by (simp add: ys)
qed

lemma apply_phase_sim:
  assumes "wf_world w1" and "wf_world w2" and "same_program w1 w2"
    and "owned_copies w1 (candidate_transforms env mts1 dexes)"
    and "owned_copies w2 (candidate_transforms env mts2 dexes)"
    and "\<forall>d \<in> set dexes. list_all2 (entry_rel w1 w2)
           (per_dex_transforms env mts1 d) (per_dex_transforms env mts2 d)"
    and "apply_phase env ps cap mts1 dexes (stats, w1) = Inr (stats', w1')"
  shows "\<exists>w2'. apply_phase env ps cap mts2 dexes (stats, w2) = Inr (stats', w2') \<and>
           same_program w1' w2'"
  using assms
proof (induction dexes arbitrary: stats w1 w2)
  case Nil
  then show ?case by auto
next
  case (Cons d ds)
  let ?pd1 = "per_dex_transforms env mts1 d"
  let ?pd2 = "per_dex_transforms env mts2 d"
  let ?sel1 = "select_under_cap cap 0 (rev ?pd1)"
  let ?sel2 = "select_under_cap cap 0 (rev ?pd2)"
  let ?rest1 = "candidate_transforms env mts1 ds"
  let ?rest2 = "candidate_transforms env mts2 ds"
  have cand1: "candidate_transforms env mts1 (d # ds) = ?pd1 @ ?rest1"
    and cand2: "candidate_transforms env mts2 (d # ds) = ?pd2 @ ?rest2"
    by (simp_all add: candidate_transforms_def)
  from Cons.prems(4) have opd1: "owned_copies w1 ?pd1" and orest1: "owned_copies w1 ?rest1"
    unfolding cand1 using owned_copies_append by blast+
  from Cons.prems(5) have opd2: "owned_copies w2 ?pd2" and orest2: "owned_copies w2 ?rest2"
    unfolding cand2 using owned_copies_append by blast+
  from Cons.prems(4) have disj1: "code_copy ` set ?pd1 \<inter> code_copy ` set ?rest1 = {}"
    unfolding cand1 by (auto simp: owned_copies_def)
  from Cons.prems(5) have disj2: "code_copy ` set ?pd2 \<inter> code_copy ` set ?rest2 = {}"
    unfolding cand2 by (auto simp: owned_copies_def)
  have osel1: "owned_copies w1 ?sel1" using opd1 by (rule owned_copies_select)
  have osel2: "owned_copies w2 ?sel2" using opd2 by (rule owned_copies_select)
  have ssel1: "set ?sel1 \<subseteq> set ?pd1"
    using set_select_under_cap[of cap 0 "rev ?pd1"] by simp
  have ssel2: "set ?sel2 \<subseteq> set ?pd2"
    using set_select_under_cap[of cap 0 "rev ?pd2"] by simp
  from Cons.prems(6) have "list_all2 (entry_rel w1 w2) ?pd1 ?pd2" by simp
  then have "list_all2 (entry_rel w1 w2) (rev ?pd1) (rev ?pd2)" by simp
  then have rsel: "list_all2 (entry_rel w1 w2) ?sel1 ?sel2" by (rule select_rel)
  from Cons.prems(7) obtain s1 w1a where
    one: "apply_selected env ps ?sel1 0 (stats, w1) = Inr (s1, w1a)"
    and rest: "apply_phase env ps cap mts1 ds (s1, w1a) = Inr (stats', w1')"
    by (auto simp: apply_transforms_dex_def apply_dex_loop_selected split: sum.splits)
  from apply_selected_sim[OF Cons.prems(1,2,3) osel1 osel2 rsel one] obtain w2a where
    two: "apply_selected env ps ?sel2 0 (stats, w2) = Inr (s1, w2a)"
    and sp: "same_program w1a w2a"
    by blast
  from apply_selected_frame[OF Cons.prems(1) osel1 one] have
    wf1: "wf_world w1a" and n1: "next_addr w1a = next_addr w1"
    and cop1: "\<forall>a'. not_live w1 a' \<and> a' \<notin> code_copy ` set ?sel1 \<longrightarrow>
            not_live w1a a' \<and> ircode_heap w1a a' = ircode_heap w1 a'"
    by blast+
  from apply_selected_frame[OF Cons.prems(2) osel2 two] have
    wf2: "wf_world w2a" and n2: "next_addr w2a = next_addr w2"
    and cop2: "\<forall>a'. not_live w2 a' \<and> a' \<notin> code_copy ` set ?sel2 \<longrightarrow>
            not_live w2a a' \<and> ircode_heap w2a a' = ircode_heap w2 a'"
    by blast+
  have k1: "not_live w1a (code_copy x) \<and> code_copy x < next_addr w1a \<and>
            ircode_heap w1a (code_copy x) = ircode_heap w1 (code_copy x)"
    if "x \<in> set ?rest1" for x
  proof -
    from that disj1 ssel1 have "code_copy x \<notin> code_copy ` set ?sel1" by blast
    moreover from orest1 that have "not_live w1 (code_copy x)" "code_copy x < next_addr w1"
      by (auto simp: owned_copies_def)
    ultimately show ?thesis using cop1 n1 by auto
  qed
  have k2: "not_live w2a (code_copy x) \<and> code_copy x < next_addr w2a \<and>
            ircode_heap w2a (code_copy x) = ircode_heap w2 (code_copy x)"
    if "x \<in> set ?rest2" for x
  proof -
    from that disj2 ssel2 have "code_copy x \<notin> code_copy ` set ?sel2" by blast
    moreover from orest2 that have "not_live w2 (code_copy x)" "code_copy x < next_addr w2"
      by (auto simp: owned_copies_def)
    ultimately show ?thesis using cop2 n2 by auto
  qed
  have own1: "owned_copies w1a ?rest1"
    using orest1 k1 unfolding owned_copies_def by blast
  have own2: "owned_copies w2a ?rest2"
    using orest2 k2 unfolding owned_copies_def by blast
  have rel': "\<forall>d' \<in> set ds. list_all2 (entry_rel w1a w2a)
           (per_dex_transforms env mts1 d') (per_dex_transforms env mts2 d')"
  proof
    fix d'
    assume d': "d' \<in> set ds"
    with Cons.prems(6) have "list_all2 (entry_rel w1 w2)
           (per_dex_transforms env mts1 d') (per_dex_transforms env mts2 d')" by simp
    then show "list_all2 (entry_rel w1a w2a)
           (per_dex_transforms env mts1 d') (per_dex_transforms env mts2 d')"
    proof (rule list.rel_mono_strong)
      fix x y
      assume "x \<in> set (per_dex_transforms env mts1 d')"
        "y \<in> set (per_dex_transforms env mts2 d')" and e: "entry_rel w1 w2 x y"
      with d' have "x \<in> set ?rest1" "y \<in> set ?rest2"
        by (auto simp: candidate_transforms_def)
      with k1 k2 e show "entry_rel w1a w2a x y" by (simp add: entry_rel_def)
    qed
  qed
  from Cons.IH[OF wf1 wf2 sp own1 own2 rel' rest] obtain w2' where
    "apply_phase env ps cap mts2 ds (s1, w2a) = Inr (stats', w2')" and "same_program w1' w2'"
    by blast
  with two show ?case
    by (auto simp: apply_transforms_dex_def apply_dex_loop_selected)
qed

lemma list_all2_views:
  assumes "map transform_view xs = map transform_view ys"
  shows "list_all2 (\<lambda>a b. transform_view a = transform_view b) xs ys"
proof -
  from assms have "list_all2 (=) (map transform_view xs) (map transform_view ys)"
    by (simp add: list.rel_eq)
  then show ?thesis by (simp add: list.rel_map)
qed

text \<open>
  Claim C5. Two walks over the same methods, in different orders, plan the same entries:
  when the first returns, so does the second; each method has at most one entry; the
  entries of the two shared vectors are the same up to their order and the addresses of
  the copies, which hold the same code. For every dex file the sorted list of candidates
  is the same in both runs, and so is the list of entries that the loop applies under any
  cap, in the same order. When the apply phase of the first run returns, the one of the
  second run returns the same statistics and a world with the same code for every method
  and the same added methods.
\<close>

theorem applied_transforms_independent_of_schedule:
  assumes "wf_world w" and "distinct schedule1" and "mset schedule1 = mset schedule2"
    and "gather_phase env ps schedule1 (w, []) = Inr (w1, mts1)"
  shows "\<exists>w2 mts2.
           gather_phase env ps schedule2 (w, []) = Inr (w2, mts2) \<and>
           distinct (map mt_method mts1) \<and> distinct (map mt_method mts2) \<and>
           mset (map transform_view mts1) = mset (map transform_view mts2) \<and>
           (\<forall>mt1 \<in> set mts1. \<forall>mt2 \<in> set mts2. mt_method mt1 = mt_method mt2 \<longrightarrow>
              transforms mt1 = transforms mt2 \<and>
              ircode_heap w1 (code_copy mt1) = ircode_heap w2 (code_copy mt2)) \<and>
           (\<forall>dex_file cap.
              map transform_view (per_dex_transforms env mts1 dex_file) =
              map transform_view (per_dex_transforms env mts2 dex_file) \<and>
              map transform_view
                (select_under_cap cap 0 (rev (per_dex_transforms env mts1 dex_file))) =
              map transform_view
                (select_under_cap cap 0 (rev (per_dex_transforms env mts2 dex_file)))) \<and>
           (\<forall>cap dexes stats stats' w1'.
              distinct (concat dexes) \<and>
              apply_phase env ps cap mts1 dexes (stats, w1) = Inr (stats', w1') \<longrightarrow>
              (\<exists>w2'. apply_phase env ps cap mts2 dexes (stats, w2) = Inr (stats', w2') \<and>
                 (\<forall>m. live_code w1' m = live_code w2' m) \<and>
                 added_methods w1' = added_methods w2'))"
proof -
  from gather_phase_Inr[OF assms(1) extends_world_refl assms(4)] have
    e1: "extends_world w w1"
    and pl: "\<forall>m \<in> set schedule1. \<exists>ts. planned_for env ps w m = Inr ts"
    and v1: "map transform_view mts1 = gathered_views env ps w schedule1"
    and c1: "\<forall>mt \<in> set mts1. ircode_heap w1 (code_copy mt) =
               map_option (simplify_moves env) (live_code w (mt_method mt))"
    by auto
  from assms(3) have se: "set schedule2 = set schedule1" by (metis mset_eq_setD)
  from assms(2,3) have d2: "distinct schedule2" by (metis mset_eq_imp_distinct_iff)
  from pl se have "\<forall>m \<in> set schedule2. \<exists>ts. planned_for env ps w m = Inr ts" by simp
  from gather_phase_total[OF assms(1) extends_world_refl this]
  have "\<exists>r. gather_phase env ps schedule2 (w, []) = Inr r" .
  then obtain w2 mts2 where g2: "gather_phase env ps schedule2 (w, []) = Inr (w2, mts2)"
    by auto
  from gather_phase_Inr[OF assms(1) extends_world_refl g2] have
    e2: "extends_world w w2"
    and v2: "map transform_view mts2 = gathered_views env ps w schedule2"
    and c2: "\<forall>mt \<in> set mts2. ircode_heap w2 (code_copy mt) =
               map_option (simplify_moves env) (live_code w (mt_method mt))"
    by auto
  have mm: "map mt_method mts = map fst (map transform_view mts)" for mts
    by (simp add: transform_view_def comp_def)
  have dm1: "distinct (map mt_method mts1)"
    unfolding mm v1 using assms(2) by (rule distinct_gathered_views)
  have dm2: "distinct (map mt_method mts2)"
    unfolding mm v2 using d2 by (rule distinct_gathered_views)
  have ms: "mset (map transform_view mts1) = mset (map transform_view mts2)"
    unfolding v1 v2 using assms(3) by (rule mset_gathered_views)
  have same: "\<forall>mt1 \<in> set mts1. \<forall>mt2 \<in> set mts2. mt_method mt1 = mt_method mt2 \<longrightarrow>
              transforms mt1 = transforms mt2 \<and>
              ircode_heap w1 (code_copy mt1) = ircode_heap w2 (code_copy mt2)"
  proof (intro ballI impI)
    fix mt1 mt2
    assume i1: "mt1 \<in> set mts1" and i2: "mt2 \<in> set mts2" and e: "mt_method mt1 = mt_method mt2"
    from i2 have "transform_view mt2 \<in> set (map transform_view mts2)" by simp
    with ms have "transform_view mt2 \<in> set (map transform_view mts1)"
      by (metis mset_eq_setD)
    then obtain mt where mt: "mt \<in> set mts1" "transform_view mt = transform_view mt2" by auto
    with e have "mt_method mt = mt_method mt1" by (simp add: transform_view_def)
    with dm1 mt(1) i1 have "mt = mt1" by (auto simp: distinct_map inj_on_def)
    with mt(2) have t: "transforms mt1 = transforms mt2" by (simp add: transform_view_def)
    from c1 i1 c2 i2 e have "ircode_heap w1 (code_copy mt1) = ircode_heap w2 (code_copy mt2)"
      by simp
    with t show "transforms mt1 = transforms mt2 \<and>
        ircode_heap w1 (code_copy mt1) = ircode_heap w2 (code_copy mt2)" by simp
  qed
  have pdv: "map transform_view (per_dex_transforms env mts1 dex_file) =
             map transform_view (per_dex_transforms env mts2 dex_file)" for dex_file
    using ms dm1 by (rule per_dex_views)
  have pd: "\<forall>dex_file cap.
              map transform_view (per_dex_transforms env mts1 dex_file) =
              map transform_view (per_dex_transforms env mts2 dex_file) \<and>
              map transform_view
                (select_under_cap cap 0 (rev (per_dex_transforms env mts1 dex_file))) =
              map transform_view
                (select_under_cap cap 0 (rev (per_dex_transforms env mts2 dex_file)))"
  proof (intro allI)
    fix dex_file cap
    from pdv[of dex_file]
    have "map transform_view (rev (per_dex_transforms env mts1 dex_file)) =
               map transform_view (rev (per_dex_transforms env mts2 dex_file))"
      by (simp add: rev_map[symmetric])
    from select_views[OF this] pdv[of dex_file]
    show "map transform_view (per_dex_transforms env mts1 dex_file) =
              map transform_view (per_dex_transforms env mts2 dex_file) \<and>
              map transform_view
                (select_under_cap cap 0 (rev (per_dex_transforms env mts1 dex_file))) =
              map transform_view
                (select_under_cap cap 0 (rev (per_dex_transforms env mts2 dex_file)))"
      by simp
  qed
  have sp: "same_program w1 w2"
    unfolding same_program_def
    using extends_world_live_code[OF assms(1) e1] extends_world_live_code[OF assms(1) e2] e1 e2
    by (simp add: extends_world_def)
  have rel: "list_all2 (entry_rel w1 w2)
      (per_dex_transforms env mts1 d) (per_dex_transforms env mts2 d)" for d
    using list_all2_views[OF pdv[of d]]
  proof (rule list.rel_mono_strong)
    fix x y
    assume x: "x \<in> set (per_dex_transforms env mts1 d)"
      and y: "y \<in> set (per_dex_transforms env mts2 d)"
      and v: "transform_view x = transform_view y"
    from x y have "x \<in> set mts1" "y \<in> set mts2" by (auto simp: set_per_dex_transforms)
    moreover from v have "mt_method x = mt_method y" by (simp add: transform_view_def)
    ultimately have "ircode_heap w1 (code_copy x) = ircode_heap w2 (code_copy y)"
      using same by blast
    with v show "entry_rel w1 w2 x y" by (simp add: entry_rel_def)
  qed
  have out: "\<forall>cap dexes stats stats' w1'.
              distinct (concat dexes) \<and>
              apply_phase env ps cap mts1 dexes (stats, w1) = Inr (stats', w1') \<longrightarrow>
              (\<exists>w2'. apply_phase env ps cap mts2 dexes (stats, w2) = Inr (stats', w2') \<and>
                 (\<forall>m. live_code w1' m = live_code w2' m) \<and>
                 added_methods w1' = added_methods w2')"
  proof (intro allI impI)
    fix cap dexes stats stats' w1'
    assume h: "distinct (concat dexes) \<and>
              apply_phase env ps cap mts1 dexes (stats, w1) = Inr (stats', w1')"
    then have dd: "distinct (concat dexes)"
      and ap: "apply_phase env ps cap mts1 dexes (stats, w1) = Inr (stats', w1')"
      by simp_all
    from gathered_owned_copies[OF assms(1,2) dd assms(4)]
    have wf1: "wf_world w1" and o1: "owned_copies w1 (candidate_transforms env mts1 dexes)"
      by simp_all
    from gathered_owned_copies[OF assms(1) d2 dd g2]
    have wf2: "wf_world w2" and o2: "owned_copies w2 (candidate_transforms env mts2 dexes)"
      by simp_all
    from rel have "\<forall>d \<in> set dexes. list_all2 (entry_rel w1 w2)
           (per_dex_transforms env mts1 d) (per_dex_transforms env mts2 d)" by blast
    from apply_phase_sim[OF wf1 wf2 sp o1 o2 this ap] obtain w2' where
      a2: "apply_phase env ps cap mts2 dexes (stats, w2) = Inr (stats', w2')"
      and sp': "same_program w1' w2'"
      by blast
    from sp' have "\<forall>m. live_code w1' m = live_code w2' m" "added_methods w1' = added_methods w2'"
      unfolding same_program_def by blast+
    with a2 show "\<exists>w2'. apply_phase env ps cap mts2 dexes (stats, w2) = Inr (stats', w2') \<and>
                 (\<forall>m. live_code w1' m = live_code w2' m) \<and>
                 added_methods w1' = added_methods w2'"
      by blast
  qed
  show ?thesis
    apply (rule exI[of _ w2])
    apply (rule exI[of _ mts2])
    apply (intro conjI)
    apply (fact g2 dm1 dm2 ms same pd out)+
    done
qed


text \<open>
  The methods of the example walked in another order: the copies get other addresses, and
  with a cap of one the dex still gets the transform of \<open>baz\<close> alone, with the same
  statistics and the same code for \<open>baz\<close>.
\<close>

theorem applied_transforms_independent_of_schedule_witness:
  "wf_world example_world \<and> distinct example_schedule \<and>
   mset example_schedule = mset [foo_bar, foo_baz, foo_nop] \<and>
   gather_phase example_env ps_min2 example_schedule (example_world, []) =
     Inr (gathered_world, gathered_transforms) \<and>
   (\<exists>w2 mts2.
      gather_phase example_env ps_min2 [foo_bar, foo_baz, foo_nop] (example_world, []) =
        Inr (w2, mts2) \<and>
      map transform_view
        (select_under_cap example_cap 0 (rev (per_dex_transforms example_env mts2 [foo_class]))) =
        [(foo_baz, [if_chain_transform])] \<and>
      (\<exists>w2'. apply_phase example_env ps_min2 example_cap mts2 [[foo_class]] (empty_stats, w2) =
         Inr (\<lparr>methods_transformed = 1, const_class_instructions_removed = 1,
                string_tree_size = 4\<rparr>, w2') \<and>
         live_code w2' foo_baz = Some (pruned_if_chain_cfg 0) \<and>
         length (added_methods w2') = 1))"
proof -
  let ?w1' = "installed example_env gathered_world baz_transform
            \<lparr>rstate_no_optimizations = False, code_ptr = Some 1\<rparr> (pruned_if_chain_cfg 0)
            [create_string_getter_method ''LFoo;'' 0 ''A;B;'']"
  let ?st = "\<lparr>methods_transformed = 1, const_class_instructions_removed = 1, string_tree_size = 4\<rparr>"
  have ds: "distinct example_schedule"
    by (simp add: example_schedule_def foo_baz_def foo_bar_def foo_nop_def)
  have ms: "mset example_schedule = mset [foo_bar, foo_baz, foo_nop]"
    by (simp add: example_schedule_def)
  from applied_transforms_independent_of_schedule[OF wf_world_example ds ms gather_phase_example]
  obtain w2 mts2 where x:
    "gather_phase example_env ps_min2 [foo_bar, foo_baz, foo_nop] (example_world, []) =
       Inr (w2, mts2) \<and>
     distinct (map mt_method gathered_transforms) \<and> distinct (map mt_method mts2) \<and>
     mset (map transform_view gathered_transforms) = mset (map transform_view mts2) \<and>
     (\<forall>mt1 \<in> set gathered_transforms. \<forall>mt2 \<in> set mts2. mt_method mt1 = mt_method mt2 \<longrightarrow>
        transforms mt1 = transforms mt2 \<and>
        ircode_heap gathered_world (code_copy mt1) = ircode_heap w2 (code_copy mt2)) \<and>
     (\<forall>dex_file cap.
        map transform_view (per_dex_transforms example_env gathered_transforms dex_file) =
        map transform_view (per_dex_transforms example_env mts2 dex_file) \<and>
        map transform_view
          (select_under_cap cap 0 (rev (per_dex_transforms example_env gathered_transforms dex_file))) =
        map transform_view
          (select_under_cap cap 0 (rev (per_dex_transforms example_env mts2 dex_file)))) \<and>
     (\<forall>cap dexes stats stats' w1'.
        distinct (concat dexes) \<and>
        apply_phase example_env ps_min2 cap gathered_transforms dexes (stats, gathered_world) =
          Inr (stats', w1') \<longrightarrow>
        (\<exists>w2'. apply_phase example_env ps_min2 cap mts2 dexes (stats, w2) = Inr (stats', w2') \<and>
           (\<forall>m. live_code w1' m = live_code w2' m) \<and>
           added_methods w1' = added_methods w2'))"
    by (elim exE) (rule that)
  note g2 = x[THEN conjunct1]
  note pd = x[THEN conjunct2, THEN conjunct2, THEN conjunct2, THEN conjunct2, THEN conjunct2,
      THEN conjunct1, THEN spec, of "[foo_class]", THEN spec, of example_cap, THEN conjunct2]
  note out = x[THEN conjunct2, THEN conjunct2, THEN conjunct2, THEN conjunct2, THEN conjunct2,
      THEN conjunct2, THEN spec, of example_cap, THEN spec, of "[[foo_class]]", THEN spec, of empty_stats,
      THEN spec, of ?st, THEN spec, of ?w1', THEN mp]
  from pd have sel: "map transform_view
        (select_under_cap example_cap 0 (rev (per_dex_transforms example_env mts2 [foo_class]))) =
        [(foo_baz, [if_chain_transform])]"
    unfolding select_under_cap_example by (simp add: transform_view_def baz_transform_def)
  have "distinct (concat [[foo_class]]) \<and>
        apply_phase example_env ps_min2 example_cap gathered_transforms [[foo_class]]
          (empty_stats, gathered_world) = Inr (?st, ?w1')"
    using apply_phase_example by simp
  from out[OF this] obtain w2' where
    a2: "apply_phase example_env ps_min2 example_cap mts2 [[foo_class]] (empty_stats, w2) =
           Inr (?st, w2')"
    and lc: "\<forall>m. live_code ?w1' m = live_code w2' m"
    and am: "added_methods ?w1' = added_methods w2'"
    by blast
  have mb: "mt_method baz_transform = foo_baz" by (simp add: baz_transform_def)
  have "live_code ?w1' (mt_method baz_transform) = Some (pruned_if_chain_cfg 0)"
    by (rule live_code_installed) (simp add: baz_transform_def)
  then have "live_code ?w1' foo_baz = Some (pruned_if_chain_cfg 0)"
    unfolding mb .
  moreover from lc have "live_code ?w1' foo_baz = live_code w2' foo_baz" by (rule spec)
  ultimately have l: "live_code w2' foo_baz = Some (pruned_if_chain_cfg 0)"
    by (rule subst[where P = "\<lambda>v. v = Some (pruned_if_chain_cfg 0)", rotated])
  have "length (added_methods ?w1') = 1"
    by (simp add: added_methods_installed baz_transform_def foo_baz_def type_class_of_foo
        gathered_world_def example_world_def)
  with am have n: "length (added_methods w2') = 1" by simp
  have ex: "\<exists>w2'. apply_phase example_env ps_min2 example_cap mts2 [[foo_class]] (empty_stats, w2) =
         Inr (?st, w2') \<and>
         live_code w2' foo_baz = Some (pruned_if_chain_cfg 0) \<and>
         length (added_methods w2') = 1"
    using a2 l n by blast
  show ?thesis
    apply (intro conjI)
        apply (fact wf_world_example ds ms gather_phase_example)+
    apply (rule exI[of _ w2])
    apply (rule exI[of _ mts2])
    apply (intro conjI)
      apply (fact g2 sel ex)+
    done
qed

end
